theory Spec2Isabelle
  imports Main "HOL-Library.AList"
begin

section \<open>Values decoded from YAML and JSON\<close>

text \<open>
  The Go code passes decoded documents around as \<^verbatim>\<open>interface{}\<close>.  The dynamic types
  that occur are \<^verbatim>\<open>nil\<close>, booleans, integers, strings, \<^verbatim>\<open>[]interface{}\<close>,
  \<^verbatim>\<open>map[string]interface{}\<close> and \<^verbatim>\<open>map[interface{}]interface{}\<close>.  A Go map is
  modelled as an association list read with \<open>map_of\<close> and written with
  \<open>AList.update\<close>; the keys of an interface-keyed map are scalars.  Floating point
  numbers are not part of the model.
\<close>

datatype mkey = KStr string | KInt int | KBool bool | KNil

datatype val =
    VNil
  | VBool bool
  | VInt int
  | VStr string
  | VList "val list"
  | VMapS "(string \<times> val) list"
  | VMapI "(mkey \<times> val) list"

text \<open>The type assertion \<^verbatim>\<open>ks, _ := k.(string)\<close>: the zero string for a non-string key.\<close>

fun key_string :: "mkey \<Rightarrow> string" where
  "key_string (KStr s) = s"
| "key_string _ = []"

text \<open>
  Successive assignments \<^verbatim>\<open>m[k] = v\<close> into a fresh string-keyed map, in the order in
  which the \<^verbatim>\<open>range\<close> statement visits the source map (the order of the list).
\<close>

definition assign_all :: "(string \<times> 'a) list \<Rightarrow> (string \<times> 'a) list" where
  "assign_all kvs = fold (\<lambda>kv m. AList.update (fst kv) (snd kv) m) kvs []"

section \<open>Normalizer\<close>

definition normalizeNamespace :: "string \<Rightarrow> string" where
  "normalizeNamespace s0 =
     (let s = dropWhile (\<lambda>c. c = CHR ''/'') s0
      in if s = [] then []
         else if last s \<noteq> CHR ''/'' then s @ ''/'' else s)"

definition normalizePath :: "string \<Rightarrow> string" where
  "normalizePath s = rev (dropWhile (\<lambda>c. c = CHR ''/'') (rev (dropWhile (\<lambda>c. c = CHR ''/'') s)))"

fun normalizeValue :: "val \<Rightarrow> val" where
  "normalizeValue (VMapI x) =
     VMapS (assign_all (map (\<lambda>kv. (key_string (fst kv), normalizeValue (snd kv))) x))"
| "normalizeValue (VList x) = VList (map normalizeValue x)"
| "normalizeValue v = v"

section \<open>Resources and state\<close>

record Resource =
  Path :: string
  Data :: val
  Namespace :: string
  Name :: string
  Revision :: int
  Dependencies :: "string list"
  IgnoreFailures :: bool
  Method :: string

record StateResource =
  DataDigest :: string
  SDependencies :: "string list"
  SIgnoreFailures :: bool
  ResponseData :: val
  SNamespace :: string
  SPath :: string

text \<open>
  \<^verbatim>\<open>State.Resources\<close>, a \<^verbatim>\<open>map[string]StateResource\<close>.  A nil map and an empty map
  behave alike in \<^verbatim>\<open>Apply\<close> (a nil one is replaced by a fresh empty one), so both are
  the empty list.
\<close>

type_synonym State = "(string \<times> StateResource) list"

definition NamespaceOrDefault :: "Resource \<Rightarrow> string" where
  "NamespaceOrDefault r = (if Namespace r \<noteq> [] then Namespace r else [])"

definition EffectiveName :: "Resource \<Rightarrow> string" where
  "EffectiveName r =
     (if Name r \<noteq> [] then Name r
      else let ns = normalizeNamespace (NamespaceOrDefault r); pathN = normalizePath (Path r)
           in if ns = [] then pathN else ns @ pathN)"

definition Key :: "Resource \<Rightarrow> string" where
  "Key r = EffectiveName r"

section \<open>Linter\<close>

text \<open>
  \<^verbatim>\<open>strings.TrimSpace\<close> and \<^verbatim>\<open>strings.ToUpper\<close>, on ASCII text (a \<open>string\<close> is a list
  of bytes).
\<close>

definition isSpace :: "char \<Rightarrow> bool" where
  "isSpace c = (c \<in> set [CHR '' '', CHR 0x09, CHR 0x0A, CHR 0x0B, CHR 0x0C, CHR 0x0D])"

definition TrimSpace :: "string \<Rightarrow> string" where
  "TrimSpace s = rev (dropWhile isSpace (rev (dropWhile isSpace s)))"

definition upper_char :: "char \<Rightarrow> char" where
  "upper_char c =
     (if 97 \<le> (of_char c :: nat) \<and> (of_char c :: nat) \<le> 122
      then char_of (of_char c - (32 :: nat)) else c)"

definition ToUpper :: "string \<Rightarrow> string" where
  "ToUpper s = map upper_char s"

fun isObject :: "val \<Rightarrow> bool" where
  "isObject (VMapS _) = True"
| "isObject (VMapI _) = True"
| "isObject _ = False"

text \<open>
  The messages of \<^verbatim>\<open>Lint\<close>, one constructor per \<^verbatim>\<open>fmt.Errorf\<close>, carrying the values
  that are formatted into the message in the order of the format string.
\<close>

datatype lint_error =
    MissingPath nat
  | MissingData nat string
  | DataNotObject nat string
  | NegativeRevision nat string
  | BadMethod nat string string
  | DuplicateName string nat nat
  | DepEmptyName string nat nat
  | DepNotFound string nat string

text \<open>The first loop of \<^verbatim>\<open>Lint\<close>, from index \<open>i\<close> on, threading \<^verbatim>\<open>byEffectiveName\<close>.\<close>

fun lint_resources ::
  "nat \<Rightarrow> (string \<rightharpoonup> nat) \<Rightarrow> Resource list \<Rightarrow> lint_error + (string \<rightharpoonup> nat)" where
  "lint_resources i byEffectiveName [] = Inr byEffectiveName"
| "lint_resources i byEffectiveName (r # rs) =
     (if Path r = [] then Inl (MissingPath (i + 1))
      else if Data r = VNil then Inl (MissingData (i + 1) (Path r))
      else if \<not> isObject (Data r) then Inl (DataNotObject (i + 1) (Path r))
      else if Revision r < 0 then Inl (NegativeRevision (i + 1) (Path r))
      else if (let m = ToUpper (TrimSpace (Method r)) in m \<noteq> [] \<and> m \<noteq> ''GET'' \<and> m \<noteq> ''POST'')
        then Inl (BadMethod (i + 1) (Path r) (Method r))
      else let eff = EffectiveName r in
        (case byEffectiveName eff of
           Some prev \<Rightarrow> Inl (DuplicateName eff (prev + 1) (i + 1))
         | None \<Rightarrow> lint_resources (i + 1) (byEffectiveName(eff \<mapsto> i)) rs))"

text \<open>The inner loop over the dependencies of document \<open>i\<close>, from entry \<open>j\<close> on.\<close>

fun lint_deps :: "(string \<rightharpoonup> nat) \<Rightarrow> Resource \<Rightarrow> nat \<Rightarrow> nat \<Rightarrow> string list \<Rightarrow> lint_error option" where
  "lint_deps byEffectiveName r i j [] = None"
| "lint_deps byEffectiveName r i j (depName # ds) =
     (if depName = [] then Some (DepEmptyName (Path r) (i + 1) (j + 1))
      else if byEffectiveName depName = None then Some (DepNotFound (Path r) (i + 1) depName)
      else lint_deps byEffectiveName r i (j + 1) ds)"

text \<open>The second loop of \<^verbatim>\<open>Lint\<close>, from index \<open>i\<close> on.\<close>

fun lint_dependencies :: "(string \<rightharpoonup> nat) \<Rightarrow> nat \<Rightarrow> Resource list \<Rightarrow> lint_error option" where
  "lint_dependencies byEffectiveName i [] = None"
| "lint_dependencies byEffectiveName i (r # rs) =
     (case lint_deps byEffectiveName r i 0 (Dependencies r) of
        Some e \<Rightarrow> Some e
      | None \<Rightarrow> lint_dependencies byEffectiveName (i + 1) rs)"

text \<open>\<^verbatim>\<open>Lint\<close>: \<open>None\<close> is the nil error.\<close>

definition Lint :: "Resource list \<Rightarrow> lint_error option" where
  "Lint resources =
     (case lint_resources 0 Map.empty resources of
        Inl e \<Rightarrow> Some e
      | Inr byEffectiveName \<Rightarrow> lint_dependencies byEffectiveName 0 resources)"

text \<open>The document indices named by a message.\<close>

fun error_docs :: "lint_error \<Rightarrow> nat list" where
  "error_docs (MissingPath i) = [i]"
| "error_docs (MissingData i _) = [i]"
| "error_docs (DataNotObject i _) = [i]"
| "error_docs (NegativeRevision i _) = [i]"
| "error_docs (BadMethod i _ _) = [i]"
| "error_docs (DuplicateName _ p i) = [p, i]"
| "error_docs (DepEmptyName _ i _) = [i]"
| "error_docs (DepNotFound _ i _) = [i]"

text \<open>Every dependency of \<open>r\<close> is non-empty and is the effective name of a document of the batch.\<close>

definition deps_resolve :: "Resource list \<Rightarrow> Resource \<Rightarrow> bool" where
  "deps_resolve rs r = (\<forall>d\<in>set (Dependencies r). d \<noteq> [] \<and> d \<in> EffectiveName ` set rs)"

section \<open>The engine's collaborators\<close>

text \<open>
  What \<^verbatim>\<open>Apply\<close> observes of the outside world: the requests handed to
  \<^verbatim>\<open>client.Do\<close> and the states handed to \<^verbatim>\<open>writer.SaveState\<close>, in order.
\<close>

record request =
  ReqMethod :: string
  ReqURL :: string
  ReqHeader :: "(string \<times> string) list"
  ReqBody :: string

datatype event = Request request | SaveState State

text \<open>The outcome of \<^verbatim>\<open>client.Do\<close>: an error, or a status code and a body.\<close>

datatype http_result = TransportError | Response int string

text \<open>
  The library functions and collaborators that the code calls and that are not part of
  the repository are parameters:
  \<^item> \<open>fmt_compound\<close>: \<^verbatim>\<open>fmt.Sprint\<close> on lists and maps;
  \<^item> \<open>json_Marshal\<close>: \<^verbatim>\<open>json.Marshal\<close> on a data value, \<open>None\<close> for an error;
  \<^item> \<open>json_Unmarshal\<close>: \<^verbatim>\<open>json.Unmarshal\<close> into a \<^verbatim>\<open>map[string]interface{}\<close>,
    \<open>None\<close> for an error;
  \<^item> \<open>Sum256\<close>: \<^verbatim>\<open>sha256.Sum256\<close>, bytes to bytes;
  \<^item> \<open>range_order\<close>: the order in which a \<^verbatim>\<open>range\<close> statement visits a map with the
    given keys, which Go leaves unspecified;
  \<^item> \<open>NewRequest_fails\<close>: whether \<^verbatim>\<open>http.NewRequestWithContext\<close> rejects a method and URL;
  \<^item> \<open>Do\<close>: the answer of the target to a request, given everything that happened before;
  \<^item> \<open>writer\<close>: \<open>None\<close> for a nil writer, otherwise whether \<^verbatim>\<open>SaveState\<close> returns an
    error (\<open>True\<close>) for a state, given everything that happened before.
\<close>

record env =
  fmt_compound :: "val \<Rightarrow> string"
  json_Marshal :: "val \<Rightarrow> string option"
  json_Unmarshal :: "string \<Rightarrow> (string \<times> val) list option"
  Sum256 :: "string \<Rightarrow> string"
  range_order :: "string list \<Rightarrow> string list"
  NewRequest_fails :: "string \<Rightarrow> string \<Rightarrow> bool"
  Do :: "event list \<Rightarrow> request \<Rightarrow> http_result"
  writer :: "(event list \<Rightarrow> State \<Rightarrow> bool) option"

section \<open>Template resolver\<close>

text \<open>Decimal notation, as \<^verbatim>\<open>fmt\<close> prints integers.\<close>

fun show_nat :: "nat \<Rightarrow> string" where
  "show_nat n = (if n < 10 then [char_of (48 + n)] else show_nat (n div 10) @ [char_of (48 + n mod 10)])"

definition show_int :: "int \<Rightarrow> string" where
  "show_int i = (if i < 0 then CHR ''-'' # show_nat (nat (- i)) else show_nat (nat i))"

text \<open>
  \<^verbatim>\<open>fmt.Sprint(val)\<close> on the values of the model.  A number decoded from a JSON
  response is a \<^verbatim>\<open>float64\<close> in the code, which the value type does not have: the
  integers of the model print in decimal notation.
\<close>

definition Sprint :: "env \<Rightarrow> val \<Rightarrow> string" where
  "Sprint env v =
     (case v of
        VNil \<Rightarrow> ''<nil>''
      | VBool b \<Rightarrow> (if b then ''true'' else ''false'')
      | VInt i \<Rightarrow> show_int i
      | VStr s \<Rightarrow> s
      | _ \<Rightarrow> fmt_compound env v)"

text \<open>\<^verbatim>\<open>strings.Split(s, sep)\<close> for a one-byte separator.\<close>

fun Split :: "string \<Rightarrow> char \<Rightarrow> string list" where
  "Split [] sep = [[]]"
| "Split (c # cs) sep =
     (if c = sep then [] # Split cs sep
      else (case Split cs sep of [] \<Rightarrow> [[c]] | p # ps \<Rightarrow> (c # p) # ps))"

text \<open>\<^verbatim>\<open>strings.SplitN(s, sep, 2)\<close> for a one-byte separator: cut at the first separator.\<close>

definition SplitN2 :: "string \<Rightarrow> char \<Rightarrow> string list" where
  "SplitN2 s sep =
     (if sep \<in> set s then [takeWhile (\<lambda>c. c \<noteq> sep) s, tl (dropWhile (\<lambda>c. c \<noteq> sep) s)]
      else [s])"

text \<open>
  \<^verbatim>\<open>fmt.Sscanf(seg, "%d", &i)\<close> on ASCII input, \<open>None\<close> for an error.  The verb skips
  leading blanks (a newline is an error), takes one optional sign and then the longest
  run of decimal digits, which must not be empty and must fit 64 bits.  Input left after
  the digits is not an error.
\<close>

definition is_blank :: "char \<Rightarrow> bool" where
  "is_blank c = (c \<in> set [CHR '' '', CHR 0x09, CHR 0x0B, CHR 0x0C, CHR 0x0D])"

definition is_digit :: "char \<Rightarrow> bool" where
  "is_digit c = (48 \<le> (of_char c :: nat) \<and> (of_char c :: nat) \<le> 57)"

definition digits_value :: "string \<Rightarrow> nat" where
  "digits_value ds = foldl (\<lambda>n c. 10 * n + (of_char c - 48)) 0 ds"

definition Sscanf_d :: "string \<Rightarrow> int option" where
  "Sscanf_d seg =
     (let s = dropWhile is_blank seg;
          neg = (s \<noteq> [] \<and> hd s = CHR ''-'');
          t = (if s \<noteq> [] \<and> (hd s = CHR ''+'' \<or> hd s = CHR ''-'') then tl s else s);
          tok = takeWhile is_digit t;
          i = (if neg then - int (digits_value tok) else int (digits_value tok))
      in if tok = [] then None
         else if i < - (2 ^ 63) \<or> 2 ^ 63 - 1 < i then None
         else Some i)"

text \<open>
  The loop of \<^verbatim>\<open>getResponseDataPath\<close> over the segments; \<open>None\<close> is the result
  \<^verbatim>\<open>(nil, false)\<close>.
\<close>

fun descend :: "val \<Rightarrow> string list \<Rightarrow> val option" where
  "descend v [] = Some v"
| "descend v (seg # segments) =
     (case v of
        VNil \<Rightarrow> None
      | VMapS m \<Rightarrow> (case map_of m seg of None \<Rightarrow> None | Some next \<Rightarrow> descend next segments)
      | VMapI m \<Rightarrow> (case map_of m (KStr seg) of None \<Rightarrow> None | Some next \<Rightarrow> descend next segments)
      | VList m \<Rightarrow>
          (case Sscanf_d seg of
             None \<Rightarrow> None
           | Some i \<Rightarrow>
               if i < 0 \<or> i \<ge> int (length m) then None
               else descend (m ! nat i) segments)
      | _ \<Rightarrow> None)"

definition getResponseDataPath :: "val \<Rightarrow> string \<Rightarrow> val option" where
  "getResponseDataPath rd path = (if path = [] then None else descend rd (Split path (CHR ''.'')))"

text \<open>The two errors of \<^verbatim>\<open>resolveTemplateString\<close>, with the values of their messages.\<close>

datatype template_error =
    ResourceNotInState string string
  | PathNotFound string string string

definition resolveTemplateString :: "env \<Rightarrow> State \<Rightarrow> string \<Rightarrow> template_error + string" where
  "resolveTemplateString env state s =
     (if s = [] \<or> hd s \<noteq> CHR ''<'' \<or> last s \<noteq> CHR ''>'' \<or> length s < 4 then Inr s
      else let inner = take (length s - 2) (drop 1 s); parts = SplitN2 inner (CHR '':'') in
        if length parts \<noteq> 2 then Inr s
        else let name = parts ! 0; key = parts ! 1 in
          if name = [] \<or> key = [] then Inr s
          else (case map_of state name of
                  None \<Rightarrow> Inl (ResourceNotInState s name)
                | Some res \<Rightarrow>
                    (case getResponseDataPath (ResponseData res) key of
                       None \<Rightarrow> Inl (PathNotFound s key name)
                     | Some v \<Rightarrow> Inr (Sprint env v))))"

text \<open>
  The loops of \<^verbatim>\<open>resolveTemplatesMap\<close> and \<^verbatim>\<open>resolveTemplatesSlice\<close> return at the
  first error, in the order of the iteration.
\<close>

fun first_error :: "('e + 'a) list \<Rightarrow> 'e + 'a list" where
  "first_error [] = Inr []"
| "first_error (Inl e # _) = Inl e"
| "first_error (Inr x # rest) = (case first_error rest of Inl e \<Rightarrow> Inl e | Inr xs \<Rightarrow> Inr (x # xs))"

definition first_error_entries :: "(string \<times> ('e + 'a)) list \<Rightarrow> 'e + (string \<times> 'a) list" where
  "first_error_entries kvs =
     (case first_error (map snd kvs) of Inl e \<Rightarrow> Inl e | Inr xs \<Rightarrow> Inr (zip (map fst kvs) xs))"

text \<open>
  \<^verbatim>\<open>ResolveTemplates\<close> with \<^verbatim>\<open>resolveTemplatesMap\<close>, \<^verbatim>\<open>resolveTemplatesSlice\<close> and
  \<^verbatim>\<open>mapInterfaceKeysToStrings\<close>.  The resolver has no effects, so converting the keys of
  an interface-keyed map and then resolving the values that survive a clash of keys
  gives the same result as resolving every value and then keeping what survives, which
  is how the equation for \<open>VMapI\<close> is written.
\<close>

fun ResolveTemplates :: "env \<Rightarrow> State \<Rightarrow> val \<Rightarrow> template_error + val" where
  "ResolveTemplates env state (VMapI x) =
     (case first_error_entries
             (assign_all (map (\<lambda>kv. (key_string (fst kv), ResolveTemplates env state (snd kv))) x)) of
        Inl e \<Rightarrow> Inl e | Inr out \<Rightarrow> Inr (VMapS out))"
| "ResolveTemplates env state (VMapS x) =
     (case first_error_entries (map (\<lambda>kv. (fst kv, ResolveTemplates env state (snd kv))) x) of
        Inl e \<Rightarrow> Inl e | Inr out \<Rightarrow> Inr (VMapS out))"
| "ResolveTemplates env state (VList x) =
     (case first_error (map (ResolveTemplates env state) x) of
        Inl e \<Rightarrow> Inl e | Inr out \<Rightarrow> Inr (VList out))"
| "ResolveTemplates env state (VStr s) =
     (case resolveTemplateString env state s of Inl e \<Rightarrow> Inl e | Inr t \<Rightarrow> Inr (VStr t))"
| "ResolveTemplates env state v = Inr v"

section \<open>Commit gate\<close>

record CommitInfo =
  CommitHash :: string
  CommitDate :: int

text \<open>One call of \<^verbatim>\<open>commitIter.Next()\<close>; the end of the list is \<^verbatim>\<open>io.EOF\<close>.\<close>

datatype next_result = NextCommit CommitInfo | NextError

text \<open>
  The repository, the storage and the clock as \<^verbatim>\<open>FindFirstSignedCommitFromRepo\<close> sees
  them: \<open>None\<close> where a call returns an error.  \<open>GetConfig\<close> gives the required number of
  signatures, \<open>Log\<close> the commits from HEAD backwards, \<open>VerifyCommitSignatures\<close> is true
  when verification returns no error, and times are instants on the time line.
\<close>

record repo =
  GetConfig :: "nat option"
  Head :: "string option"
  GetTrustedPGPPublicKeys :: "string list option"
  CommitObject :: "string \<Rightarrow> bool"
  Log :: "string \<Rightarrow> next_result list option"
  VerifyCommitSignatures :: "string \<Rightarrow> string list \<Rightarrow> nat \<Rightarrow> bool"
  Now :: int

datatype git_error =
    ErrGetConfig | ErrHead | ErrTrustedKeys | ErrHeadCommitObject | ErrCommitIterator | ErrIterating

text \<open>The \<^verbatim>\<open>for\<close> loop over the commit iterator.\<close>

fun walk ::
  "repo \<Rightarrow> string list \<Rightarrow> nat \<Rightarrow> string \<Rightarrow> CommitInfo option \<Rightarrow> next_result list
     \<Rightarrow> git_error + CommitInfo option" where
  "walk g keys required boundaryCommit lastFinishedCommit [] = Inr None"
| "walk g keys required boundaryCommit lastFinishedCommit (NextError # rest) = Inl ErrIterating"
| "walk g keys required boundaryCommit lastFinishedCommit (NextCommit c # rest) =
     (if boundaryCommit \<noteq> [] \<and> CommitHash c = boundaryCommit then Inr None
      else if \<not> VerifyCommitSignatures g (CommitHash c) keys required
        then walk g keys required boundaryCommit lastFinishedCommit rest
      else if CommitDate c > Now g
        then walk g keys required boundaryCommit lastFinishedCommit rest
      else if (case lastFinishedCommit of None \<Rightarrow> False | Some l \<Rightarrow> CommitDate c < CommitDate l)
        then walk g keys required boundaryCommit lastFinishedCommit rest
      else Inr (Some \<lparr>CommitHash = CommitHash c, CommitDate = CommitDate c\<rparr>))"

definition FindFirstSignedCommitFromRepo :: "repo \<Rightarrow> CommitInfo option \<Rightarrow> git_error + CommitInfo option" where
  "FindFirstSignedCommitFromRepo g lastFinishedCommit =
     (case GetConfig g of
        None \<Rightarrow> Inl ErrGetConfig
      | Some required \<Rightarrow>
          let boundaryCommit = (case lastFinishedCommit of None \<Rightarrow> [] | Some l \<Rightarrow> CommitHash l) in
          (case Head g of
             None \<Rightarrow> Inl ErrHead
           | Some headCommit \<Rightarrow>
               if boundaryCommit \<noteq> [] \<and> boundaryCommit = headCommit then Inr None
               else (case GetTrustedPGPPublicKeys g of
                  None \<Rightarrow> Inl ErrTrustedKeys
                | Some trustedPGPPublicKeys \<Rightarrow>
                    if \<not> CommitObject g headCommit then Inl ErrHeadCommitObject
                    else (case Log g headCommit of
                       None \<Rightarrow> Inl ErrCommitIterator
                     | Some commits \<Rightarrow>
                         walk g trustedPGPPublicKeys required boundaryCommit lastFinishedCommit commits))))"

text \<open>
  A commit qualifies when it carries the required number of valid signatures of trusted
  keys, is not dated in the future and, when there is a last applied commit, is not dated
  before it.
\<close>

definition qualifies :: "repo \<Rightarrow> string list \<Rightarrow> nat \<Rightarrow> CommitInfo option \<Rightarrow> CommitInfo \<Rightarrow> bool" where
  "qualifies g keys required lastFinishedCommit c =
     (VerifyCommitSignatures g (CommitHash c) keys required
      \<and> \<not> CommitDate c > Now g
      \<and> (case lastFinishedCommit of None \<Rightarrow> True | Some l \<Rightarrow> \<not> CommitDate c < CommitDate l))"

text \<open>The boundary of the walk: the hash of the last applied commit, when it is not empty.\<close>

definition is_boundary :: "CommitInfo option \<Rightarrow> string \<Rightarrow> bool" where
  "is_boundary lastFinishedCommit h =
     (case lastFinishedCommit of None \<Rightarrow> False | Some l \<Rightarrow> CommitHash l \<noteq> [] \<and> h = CommitHash l)"

text \<open>
  The commits of a history, listed from HEAD backwards, that lie before the boundary, and
  the one of them nearest to HEAD that qualifies.
\<close>

definition newer_commits :: "CommitInfo option \<Rightarrow> CommitInfo list \<Rightarrow> CommitInfo list" where
  "newer_commits lastFinishedCommit cs = takeWhile (\<lambda>c. \<not> is_boundary lastFinishedCommit (CommitHash c)) cs"

definition newest_qualifying ::
  "repo \<Rightarrow> string list \<Rightarrow> nat \<Rightarrow> CommitInfo option \<Rightarrow> CommitInfo list \<Rightarrow> CommitInfo option" where
  "newest_qualifying g keys required lastFinishedCommit cs =
     find (qualifies g keys required lastFinishedCommit) (newer_commits lastFinishedCommit cs)"

section \<open>Apply engine\<close>

subsection \<open>Digest and request body\<close>

definition revisionForDigest :: "int \<Rightarrow> nat" where
  "revisionForDigest revision = (if revision < 0 then 0 else nat revision)"

definition normalizeMethod :: "string \<Rightarrow> string" where
  "normalizeMethod m = (if ToUpper (TrimSpace m) = ''GET'' then ''GET'' else ''POST'')"

text \<open>\<^verbatim>\<open>hex.EncodeToString\<close>: two lower-case hexadecimal digits for each byte.\<close>

definition hex_digit :: "nat \<Rightarrow> char" where
  "hex_digit n = ''0123456789abcdef'' ! n"

definition EncodeToString :: "string \<Rightarrow> string" where
  "EncodeToString b = concat (map (\<lambda>c. [hex_digit (of_char c div 16), hex_digit (of_char c mod 16)]) b)"

text \<open>The value of a hexadecimal digit.\<close>

definition unhex :: "char \<Rightarrow> nat" where
  "unhex c = (if is_digit c then of_char c - 48 else of_char c - 87)"

text \<open>
  \<^verbatim>\<open>json.Marshal\<close> of the envelope
  \<^verbatim>\<open>map[string]interface{}{"data": norm, "revision": revision}\<close>.  The encoder writes
  the keys of a map in sorted order and no white space, and fails exactly when the
  encoding of a value fails; the unsigned revision always encodes, as its decimal
  notation.
\<close>

definition marshal_envelope :: "env \<Rightarrow> val \<Rightarrow> nat \<Rightarrow> string option" where
  "marshal_envelope env norm revision =
     (case json_Marshal env norm of
        None \<Rightarrow> None
      | Some d \<Rightarrow>
          Some ([CHR ''{'', CHR 0x22] @ ''data'' @ [CHR 0x22, CHR '':''] @ d
                @ [CHR '','', CHR 0x22] @ ''revision'' @ [CHR 0x22, CHR '':''] @ show_nat revision
                @ [CHR ''}'']))"

definition dataDigestWithRevision :: "env \<Rightarrow> val \<Rightarrow> nat \<Rightarrow> string" where
  "dataDigestWithRevision env data revision =
     (let norm = normalizeValue data in
      case marshal_envelope env norm revision of
        None \<Rightarrow> []
      | Some b \<Rightarrow> EncodeToString (Sum256 env b))"

definition dataToJSON :: "env \<Rightarrow> val \<Rightarrow> string option" where
  "dataToJSON env data = json_Marshal env (normalizeValue data)"

subsection \<open>Looking a state entry up by namespace and path\<close>

text \<open>
  A \<^verbatim>\<open>range\<close> over a map: its entries, each key once, in the order the environment
  chooses.
\<close>

definition range_map :: "env \<Rightarrow> (string \<times> 'v) list \<Rightarrow> (string \<times> 'v) list" where
  "range_map env m =
     List.map_filter (\<lambda>k. map_option (Pair k) (map_of m k)) (range_order env (remdups (map fst m)))"

definition FindByNsPath :: "env \<Rightarrow> State \<Rightarrow> string \<Rightarrow> string \<Rightarrow> (string \<times> StateResource) option" where
  "FindByNsPath env s namespace path =
     (let ns = normalizeNamespace namespace; pathN = normalizePath path in
      find (\<lambda>kv. normalizeNamespace (SNamespace (snd kv)) = ns \<and> normalizePath (SPath (snd kv)) = pathN)
        (range_map env s))"

subsection \<open>Errors and outcomes\<close>

text \<open>
  The errors of \<^verbatim>\<open>Apply\<close>, one constructor per message: for a resource the namespace,
  the path and the cause, for a deletion likewise.  \<open>IndexOutOfRange\<close> stands for the
  run-time panic of an indexing expression.
\<close>

datatype cause =
    Template template_error
  | SaveStateMigrate
  | JsonEncode
  | NewRequest
  | RequestFailed
  | SaveStateFailed
  | Status int string

datatype delete_cause =
    DeleteNewRequest
  | DeleteRequestFailed
  | DeleteSaveState
  | DeleteSaveStateAfter int
  | DeleteStatus int string

datatype apply_error =
    AddressRequired
  | TokenRequired
  | CycleInDependencies
  | IndexOutOfRange
  | ResourceError string string cause
  | DeleteError string string delete_cause

text \<open>
  How one iteration of a loop of \<^verbatim>\<open>Apply\<close> ends: it runs to its end or on to the next
  iteration without an error (\<open>Proceed\<close>), it drops an error because of
  \<^verbatim>\<open>ignore_failures\<close> and goes on (\<open>Ignored\<close>), or it returns the error (\<open>Abort\<close>).
\<close>

datatype outcome = Proceed | Ignored apply_error | Abort apply_error

definition failure :: "bool \<Rightarrow> apply_error \<Rightarrow> outcome" where
  "failure ignoreFailures e = (if \<not> ignoreFailures then Abort e else Ignored e)"

text \<open>\<^verbatim>\<open>if writer != nil { err := writer.SaveState(ctx, state) ... }\<close>: the error flag and the trace.\<close>

definition save :: "env \<Rightarrow> State \<Rightarrow> event list \<Rightarrow> bool \<times> event list" where
  "save env state tr =
     (case writer env of
        None \<Rightarrow> (False, tr)
      | Some w \<Rightarrow> (w tr state, tr @ [SaveState state]))"

definition TrimSuffixSlash :: "string \<Rightarrow> string" where
  "TrimSuffixSlash s = (if s \<noteq> [] \<and> last s = CHR ''/'' then butlast s else s)"

definition TrimPrefixSlash :: "string \<Rightarrow> string" where
  "TrimPrefixSlash s = (if s \<noteq> [] \<and> hd s = CHR ''/'' then tl s else s)"

definition vault_headers :: "string \<Rightarrow> string \<Rightarrow> (string \<times> string) list" where
  "vault_headers token ns =
     [(''X-Vault-Request'', ''true''), (''X-Vault-Token'', token)]
     @ (if ns \<noteq> [] then [(''X-Vault-Namespace'', ns)] else [])"

subsection \<open>Create or update\<close>

text \<open>The response data kept in state after a 2xx answer.\<close>

definition response_data :: "env \<Rightarrow> string \<Rightarrow> val" where
  "response_data env respBody =
     (if respBody \<noteq> [] then
        (case json_Unmarshal env respBody of
           None \<Rightarrow> VNil
         | Some parsed \<Rightarrow> (case map_of parsed ''data'' of None \<Rightarrow> VNil | Some d \<Rightarrow> normalizeValue d))
      else VNil)"

text \<open>The body of the loop \<^verbatim>\<open>for _, idx := range order\<close> for the resource \<open>r\<close>.\<close>

definition apply_resource ::
  "env \<Rightarrow> string \<Rightarrow> string \<Rightarrow> Resource \<Rightarrow> State \<Rightarrow> event list \<Rightarrow> outcome \<times> State \<times> event list" where
  "apply_resource env vaultAddr token r state tr =
     (let key = Key r in
      case ResolveTemplates env state (Data r) of
        Inl err \<Rightarrow>
          (failure (IgnoreFailures r) (ResourceError (Namespace r) (Path r) (Template err)), state, tr)
      | Inr resolvedData \<Rightarrow>
          let rev = revisionForDigest (Revision r) in
          if (case map_of state key of
                Some prev \<Rightarrow> DataDigest prev = dataDigestWithRevision env resolvedData rev
              | None \<Rightarrow> False)
          then (Proceed, state, tr)
          else
            (case (if map_of state key = None
                   then (case FindByNsPath env state (NamespaceOrDefault r) (Path r) of
                           Some (oldKey, prev) \<Rightarrow>
                             if DataDigest prev = dataDigestWithRevision env resolvedData rev
                             then Some (oldKey, prev) else None
                         | None \<Rightarrow> None)
                   else None) of
               Some (oldKey, prev) \<Rightarrow>
                 let state' = AList.delete oldKey
                       (AList.update key
                          \<lparr>DataDigest = DataDigest prev, SDependencies = SDependencies prev,
                           SIgnoreFailures = SIgnoreFailures prev, ResponseData = ResponseData prev,
                           SNamespace = NamespaceOrDefault r, SPath = Path r\<rparr> state);
                     (err, tr') = save env state' tr
                 in if err
                    then (failure (IgnoreFailures r)
                            (ResourceError (Namespace r) (Path r) SaveStateMigrate), state', tr')
                    else (Proceed, state', tr')
             | None \<Rightarrow>
                 let url = vaultAddr @ ''/v1/'' @ TrimPrefixSlash (Path r);
                     method = normalizeMethod (Method r)
                 in
                 (case (if method = ''POST'' then dataToJSON env resolvedData else Some []) of
                    None \<Rightarrow>
                      (failure (IgnoreFailures r) (ResourceError (Namespace r) (Path r) JsonEncode),
                       state, tr)
                  | Some reqBody \<Rightarrow>
                      if NewRequest_fails env method url
                      then (failure (IgnoreFailures r)
                              (ResourceError (Namespace r) (Path r) NewRequest), state, tr)
                      else
                        let req = \<lparr>ReqMethod = method, ReqURL = url,
                                   ReqHeader =
                                     (if method = ''POST'' \<and> reqBody \<noteq> []
                                      then [(''Content-Type'', ''application/json'')] else [])
                                     @ vault_headers token (Namespace r),
                                   ReqBody = reqBody\<rparr>;
                            tr1 = tr @ [Request req]
                        in
                        (case Do env tr req of
                           TransportError \<Rightarrow>
                             (failure (IgnoreFailures r)
                                (ResourceError (Namespace r) (Path r) RequestFailed), state, tr1)
                         | Response status respBody \<Rightarrow>
                             if 200 \<le> status \<and> status < 300 then
                               let state' = AList.update key
                                     \<lparr>DataDigest = dataDigestWithRevision env resolvedData rev,
                                      SDependencies = Dependencies r,
                                      SIgnoreFailures = IgnoreFailures r,
                                      ResponseData = response_data env respBody,
                                      SNamespace = NamespaceOrDefault r, SPath = Path r\<rparr> state;
                                   (err, tr') = save env state' tr1
                               in if err
                                  then (failure (IgnoreFailures r)
                                          (ResourceError (Namespace r) (Path r) SaveStateFailed),
                                        state', tr')
                                  else (Proceed, state', tr')
                             else
                               (failure (IgnoreFailures r)
                                  (ResourceError (Namespace r) (Path r)
                                     (Status status (TrimSpace respBody))), state, tr1)))))"

text \<open>The loop over the resources in topological order.\<close>

fun create_pass ::
  "env \<Rightarrow> string \<Rightarrow> string \<Rightarrow> Resource list \<Rightarrow> State \<Rightarrow> event list
     \<Rightarrow> apply_error option \<times> State \<times> event list" where
  "create_pass env vaultAddr token [] state tr = (None, state, tr)"
| "create_pass env vaultAddr token (r # rs) state tr =
     (case apply_resource env vaultAddr token r state tr of
        (Abort e, state', tr') \<Rightarrow> (Some e, state', tr')
      | (_, state', tr') \<Rightarrow> create_pass env vaultAddr token rs state' tr')"

subsection \<open>Delete\<close>

text \<open>\<^verbatim>\<open>state.Resources[key]\<close>: the zero value for a missing key.\<close>

definition zero_resource :: StateResource where
  "zero_resource = \<lparr>DataDigest = [], SDependencies = [], SIgnoreFailures = False,
     ResponseData = VNil, SNamespace = [], SPath = []\<rparr>"

definition state_at :: "State \<Rightarrow> string \<Rightarrow> StateResource" where
  "state_at state key = (case map_of state key of None \<Rightarrow> zero_resource | Some res \<Rightarrow> res)"

text \<open>The body of the loop \<^verbatim>\<open>for _, key := range deleteOrder\<close>.\<close>

definition delete_key ::
  "env \<Rightarrow> string \<Rightarrow> string \<Rightarrow> string \<Rightarrow> State \<Rightarrow> event list \<Rightarrow> outcome \<times> State \<times> event list" where
  "delete_key env vaultAddr token key state tr =
     (let res = state_at state key;
          ns = SNamespace res; path = SPath res;
          ignoreFailures = SIgnoreFailures res;
          url = vaultAddr @ ''/v1/'' @ TrimPrefixSlash path
      in
      if NewRequest_fails env ''DELETE'' url
      then (failure ignoreFailures (DeleteError ns path DeleteNewRequest), state, tr)
      else
        let req = \<lparr>ReqMethod = ''DELETE'', ReqURL = url, ReqHeader = vault_headers token ns,
                   ReqBody = []\<rparr>;
            tr1 = tr @ [Request req]
        in
        (case Do env tr req of
           TransportError \<Rightarrow> (failure ignoreFailures (DeleteError ns path DeleteRequestFailed), state, tr1)
         | Response status respBody \<Rightarrow>
             if 200 \<le> status \<and> status < 300 then
               let state' = AList.delete key state;
                   (err, tr') = save env state' tr1
               in if err
                  then (failure ignoreFailures (DeleteError ns path DeleteSaveState), state', tr')
                  else (Proceed, state', tr')
             else if status = 405 \<or> status = 404 then
               let state' = AList.delete key state;
                   (err, tr') = save env state' tr1
               in if err
                  then (failure ignoreFailures (DeleteError ns path (DeleteSaveStateAfter status)),
                        state', tr')
                  else (Proceed, state', tr')
             else (failure ignoreFailures
                     (DeleteError ns path (DeleteStatus status (TrimSpace respBody))), state, tr1)))"

fun delete_pass ::
  "env \<Rightarrow> string \<Rightarrow> string \<Rightarrow> string list \<Rightarrow> State \<Rightarrow> event list
     \<Rightarrow> apply_error option \<times> State \<times> event list" where
  "delete_pass env vaultAddr token [] state tr = (None, state, tr)"
| "delete_pass env vaultAddr token (key # keys) state tr =
     (case delete_key env vaultAddr token key state tr of
        (Abort e, state', tr') \<Rightarrow> (Some e, state', tr')
      | (_, state', tr') \<Rightarrow> delete_pass env vaultAddr token keys state' tr')"

subsection \<open>Topological order of the batch\<close>

text \<open>\<^verbatim>\<open>byName\<close>: the last index that carries each effective name.\<close>

fun index_by_name :: "nat \<Rightarrow> Resource list \<Rightarrow> (string \<rightharpoonup> nat) \<Rightarrow> (string \<rightharpoonup> nat)" where
  "index_by_name i [] byName = byName"
| "index_by_name i (r # rs) byName = index_by_name (i + 1) rs (byName(EffectiveName r \<mapsto> i))"

text \<open>The loop over the dependencies of resource \<open>i\<close>: one edge for each known name.\<close>

fun add_dependencies ::
  "(string \<rightharpoonup> nat) \<Rightarrow> nat \<Rightarrow> string list \<Rightarrow> int list \<times> nat list list \<Rightarrow> int list \<times> nat list list" where
  "add_dependencies byName i [] (inDegree, adj) = (inDegree, adj)"
| "add_dependencies byName i (depName # ds) (inDegree, adj) =
     (case byName depName of
        None \<Rightarrow> add_dependencies byName i ds (inDegree, adj)
      | Some depIdx \<Rightarrow>
          add_dependencies byName i ds
            (inDegree[i := inDegree ! i + 1], adj[depIdx := adj ! depIdx @ [i]]))"

fun add_edges ::
  "(string \<rightharpoonup> nat) \<Rightarrow> nat \<Rightarrow> Resource list \<Rightarrow> int list \<times> nat list list \<Rightarrow> int list \<times> nat list list" where
  "add_edges byName i [] g = g"
| "add_edges byName i (r # rs) g =
     add_edges byName (i + 1) rs (add_dependencies byName i (Dependencies r) g)"

text \<open>
  The loop \<^verbatim>\<open>for _, v := range adj[u]\<close>; \<open>None\<close> when an index is out of range, where
  the Go code panics.
\<close>

fun relax :: "nat list \<Rightarrow> int list \<Rightarrow> nat list \<Rightarrow> (int list \<times> nat list) option" where
  "relax [] inDegree queue = Some (inDegree, queue)"
| "relax (v # vs) inDegree queue =
     (if v < length inDegree
      then let inDegree' = inDegree[v := inDegree ! v - 1]
           in relax vs inDegree' (if inDegree' ! v = 0 then queue @ [v] else queue)
      else None)"

text \<open>
  Each entry pushed on the queue comes with an in-degree that falls from one to zero, so
  the length of the queue and the number of positive in-degrees together never grow.
\<close>

lemma relax_measure:
  "relax vs d q = Some (d', q') \<Longrightarrow>
   length q' + length (filter (\<lambda>x. 0 < x) d') = length q + length (filter (\<lambda>x. 0 < x) d)"
proof (induction vs d q rule: relax.induct)
  case (1 d q) then show ?case by simp
next
  case (2 v vs d q)
  from "2.prems" have v: "v < length d" by (simp split: if_splits)
  define d1 where "d1 = d[v := d ! v - 1]"
  define q1 where "q1 = (if d1 ! v = 0 then q @ [v] else q)"
  have rec: "relax vs d1 q1 = Some (d', q')"
    using "2.prems" v by (simp add: d1_def q1_def Let_def)
  have IH: "length q' + length (filter (\<lambda>x. 0 < x) d') = length q1 + length (filter (\<lambda>x. 0 < x) d1)"
    using "2.IH"[OF v d1_def rec[unfolded q1_def]] by (simp add: q1_def)
  have d1v: "d1 ! v = d ! v - 1" unfolding d1_def using v by simp
  have "length (filter (\<lambda>x. 0 < x) d)
      = length (filter (\<lambda>x. 0 < x) (take v d)) + (if 0 < d ! v then 1 else 0)
        + length (filter (\<lambda>x. 0 < x) (drop (Suc v) d))"
    using arg_cong[OF id_take_nth_drop[OF v], of "\<lambda>l. length (filter (\<lambda>x. 0 < x) l)"] by simp
  moreover have "length (filter (\<lambda>x. 0 < x) d1)
      = length (filter (\<lambda>x. 0 < x) (take v d)) + (if 0 < d ! v - 1 then 1 else 0)
        + length (filter (\<lambda>x. 0 < x) (drop (Suc v) d))"
    using arg_cong[OF upd_conv_take_nth_drop[OF v, of "d ! v - 1"], of "\<lambda>l. length (filter (\<lambda>x. 0 < x) l)"]
    by (simp add: d1_def)
  ultimately have "length q1 + length (filter (\<lambda>x. 0 < x) d1) = length q + length (filter (\<lambda>x. 0 < x) d)"
    by (auto simp: q1_def d1v)
  then show ?case using IH by simp
qed

text \<open>The loop \<^verbatim>\<open>for len(queue) > 0\<close>.\<close>

function drain :: "nat list list \<Rightarrow> nat list \<Rightarrow> int list \<Rightarrow> nat list \<Rightarrow> nat list option" where
  "drain adj [] inDegree order = Some order"
| "drain adj (u # queue) inDegree order =
     (if u < length adj
      then (case relax (adj ! u) inDegree queue of
              None \<Rightarrow> None
            | Some (inDegree', queue') \<Rightarrow> drain adj queue' inDegree' (order @ [u]))
      else None)"
  by pat_completeness auto
termination
proof (relation "measure (\<lambda>(adj, queue, inDegree, order). length queue + length (filter (\<lambda>x. 0 < x) inDegree))")
  show "wf (measure (\<lambda>(adj, queue, inDegree, order). length queue + length (filter (\<lambda>x. 0 < x) inDegree)))"
    by simp
next
  fix adj :: "nat list list" and u :: nat and queue inDegree order x2 x y
  assume "u < length adj" and "relax (adj ! u) inDegree queue = Some x2" and "(x, y) = x2"
  then have "relax (adj ! u) inDegree queue = Some (x, y)" by simp
  from relax_measure[OF this]
  show "((adj, y, x, order @ [u]), (adj, u # queue, inDegree, order))
          \<in> measure (\<lambda>(adj, queue, inDegree, order). length queue + length (filter (\<lambda>x. 0 < x) inDegree))"
    by simp
qed

definition topologicalOrder :: "Resource list \<Rightarrow> apply_error + nat list" where
  "topologicalOrder resources =
     (let n = length resources;
          byName = index_by_name 0 resources Map.empty;
          (inDegree, adj) = add_edges byName 0 resources (replicate n 0, replicate n []);
          queue = filter (\<lambda>i. inDegree ! i = 0) [0..<n]
      in case drain adj queue inDegree [] of
           None \<Rightarrow> Inl IndexOutOfRange
         | Some order \<Rightarrow> if length order \<noteq> n then Inl CycleInDependencies else Inr order)"

subsection \<open>Order of deletion\<close>

text \<open>Reading a Go map: the zero value for a missing key.\<close>

definition at0 :: "(string \<times> int) list \<Rightarrow> string \<Rightarrow> int" where
  "at0 m k = (case map_of m k of None \<Rightarrow> 0 | Some x \<Rightarrow> x)"

definition at_nil :: "(string \<times> string list) list \<Rightarrow> string \<Rightarrow> string list" where
  "at_nil m k = (case map_of m k of None \<Rightarrow> [] | Some x \<Rightarrow> x)"

text \<open>The first loop of \<^verbatim>\<open>deleteOrderFromState\<close> over the keys: empty entries.\<close>

fun init_graph ::
  "string list \<Rightarrow> (string \<times> int) list \<times> (string \<times> string list) list
     \<Rightarrow> (string \<times> int) list \<times> (string \<times> string list) list" where
  "init_graph [] g = g"
| "init_graph (k # ks) (inDegree, adj) =
     init_graph ks (AList.update k 0 inDegree, AList.update k [] adj)"

text \<open>The loop over the stored dependencies of the key \<open>k\<close>.\<close>

fun add_stored_dependencies ::
  "string list \<Rightarrow> string \<Rightarrow> string list \<Rightarrow> (string \<times> int) list \<times> (string \<times> string list) list
     \<Rightarrow> (string \<times> int) list \<times> (string \<times> string list) list" where
  "add_stored_dependencies keys k [] g = g"
| "add_stored_dependencies keys k (depName # ds) (inDegree, adj) =
     (if depName \<in> set keys
      then add_stored_dependencies keys k ds
             (AList.update k (at0 inDegree k + 1) inDegree,
              AList.update depName (at_nil adj depName @ [k]) adj)
      else add_stored_dependencies keys k ds (inDegree, adj))"

fun add_stored_edges ::
  "State \<Rightarrow> string list \<Rightarrow> string list \<Rightarrow> (string \<times> int) list \<times> (string \<times> string list) list
     \<Rightarrow> (string \<times> int) list \<times> (string \<times> string list) list" where
  "add_stored_edges state keys [] g = g"
| "add_stored_edges state keys (k # ks) g =
     add_stored_edges state keys ks
       (add_stored_dependencies keys k (SDependencies (state_at state k)) g)"

text \<open>The loop \<^verbatim>\<open>for _, v := range adj[u]\<close> on maps.\<close>

fun relax_keys :: "string list \<Rightarrow> (string \<times> int) list \<Rightarrow> string list \<Rightarrow> (string \<times> int) list \<times> string list" where
  "relax_keys [] inDegree queue = (inDegree, queue)"
| "relax_keys (v # vs) inDegree queue =
     (let inDegree' = AList.update v (at0 inDegree v - 1) inDegree
      in relax_keys vs inDegree' (if at0 inDegree' v = 0 then queue @ [v] else queue))"

lemma at0_update: "at0 (AList.update k x m) k' = (if k' = k then x else at0 m k')"
  by (simp add: at0_def update_conv')

lemma positive_update:
  "length (filter (\<lambda>kv. 0 < snd kv) (AList.update k (at0 m k - 1) m))
     = length (filter (\<lambda>kv. 0 < snd kv) m) - (if at0 m k = 1 then 1 else 0)
   \<and> (at0 m k = 1 \<longrightarrow> 0 < length (filter (\<lambda>kv. 0 < snd kv) m))"
proof (induction m)
  case Nil then show ?case by (simp add: at0_def)
next
  case (Cons a m)
  obtain k' x where a: "a = (k', x)" by (cases a)
  show ?case
  proof (cases "k' = k")
    case True
    then show ?thesis using a by (auto simp: at0_def)
  next
    case False
    then have "at0 (a # m) k = at0 m k" using a by (simp add: at0_def)
    then show ?thesis using Cons.IH False a by (auto simp: at0_def)
  qed
qed

lemma relax_keys_measure:
  "relax_keys vs d q = (d', q') \<Longrightarrow>
   length q' + length (filter (\<lambda>kv. 0 < snd kv) d') = length q + length (filter (\<lambda>kv. 0 < snd kv) d)"
proof (induction vs d q rule: relax_keys.induct)
  case (1 d q) then show ?case by simp
next
  case (2 v vs d q)
  define d1 where "d1 = AList.update v (at0 d v - 1) d"
  define q1 where "q1 = (if at0 d1 v = 0 then q @ [v] else q)"
  have rec: "relax_keys vs d1 q1 = (d', q')"
    using "2.prems" by (simp add: d1_def q1_def Let_def)
  have IH: "length q' + length (filter (\<lambda>kv. 0 < snd kv) d') = length q1 + length (filter (\<lambda>kv. 0 < snd kv) d1)"
    using "2.IH"[OF d1_def rec[unfolded q1_def]] by (simp add: q1_def)
  have d1v: "at0 d1 v = at0 d v - 1" by (simp add: d1_def at0_update)
  have pos: "length (filter (\<lambda>kv. 0 < snd kv) d1)
      = length (filter (\<lambda>kv. 0 < snd kv) d) - (if at0 d v = 1 then 1 else 0)"
    and nz: "at0 d v = 1 \<longrightarrow> 0 < length (filter (\<lambda>kv. 0 < snd kv) d)"
    using positive_update[of v d] unfolding d1_def by blast+
  have "length q1 + length (filter (\<lambda>kv. 0 < snd kv) d1) = length q + length (filter (\<lambda>kv. 0 < snd kv) d)"
  proof (cases "at0 d v = 1")
    case True
    then have "length q1 = Suc (length q)" by (simp add: q1_def d1v)
    then show ?thesis using pos nz True by simp
  next
    case False
    then have "q1 = q" by (simp add: q1_def d1v)
    then show ?thesis using pos False by simp
  qed
  then show ?case using IH by simp
qed

text \<open>The loop \<^verbatim>\<open>for len(queue) > 0\<close> on maps.\<close>

function drain_keys ::
  "(string \<times> string list) list \<Rightarrow> string list \<Rightarrow> (string \<times> int) list \<Rightarrow> string list \<Rightarrow> string list" where
  "drain_keys adj [] inDegree order = order"
| "drain_keys adj (u # queue) inDegree order =
     (case relax_keys (at_nil adj u) inDegree queue of
        (inDegree', queue') \<Rightarrow> drain_keys adj queue' inDegree' (order @ [u]))"
  by pat_completeness auto
termination
proof (relation "measure (\<lambda>(adj, queue, inDegree, order). length queue + length (filter (\<lambda>kv. 0 < snd kv) inDegree))")
  show "wf (measure (\<lambda>(adj, queue, inDegree, order). length queue + length (filter (\<lambda>kv. 0 < snd kv) inDegree)))"
    by simp
next
  fix adj :: "(string \<times> string list) list" and u :: string and queue inDegree order x y
  assume "(x, y) = relax_keys (at_nil adj u) inDegree queue"
  then have "relax_keys (at_nil adj u) inDegree queue = (x, y)" by simp
  from relax_keys_measure[OF this]
  show "((adj, y, x, order @ [u]), (adj, u # queue, inDegree, order))
          \<in> measure (\<lambda>(adj, queue, inDegree, order). length queue + length (filter (\<lambda>kv. 0 < snd kv) inDegree))"
    by simp
qed

definition deleteOrderFromState :: "env \<Rightarrow> State \<Rightarrow> string list \<Rightarrow> string list" where
  "deleteOrderFromState env state keys =
     (let (inDegree, adj) = add_stored_edges state keys keys (init_graph keys ([], []));
          queue = filter (\<lambda>k. at0 inDegree k = 0) (map fst (range_map env inDegree))
      in drain_keys adj queue inDegree [])"

subsection \<open>Apply\<close>

text \<open>
  \<^verbatim>\<open>Apply\<close>: the error returned (\<open>None\<close> for nil), the state as the engine leaves it and
  the requests and state writes it issued, in order.
\<close>

definition Apply ::
  "env \<Rightarrow> Resource list \<Rightarrow> string \<Rightarrow> string \<Rightarrow> State \<Rightarrow> apply_error option \<times> State \<times> event list" where
  "Apply env resources vaultAddr0 token state =
     (let vaultAddr = TrimSuffixSlash vaultAddr0 in
      if vaultAddr = [] then (Some AddressRequired, state, [])
      else if token = [] then (Some TokenRequired, state, [])
      else
        (case topologicalOrder resources of
           Inl err \<Rightarrow> (Some err, state, [])
         | Inr order \<Rightarrow>
             (case create_pass env vaultAddr token (map (\<lambda>idx. resources ! idx) order) state [] of
                (Some err, state', tr) \<Rightarrow> (Some err, state', tr)
              | (None, state', tr) \<Rightarrow>
                  let toDelete = filter (\<lambda>key. key \<notin> set (map Key resources))
                                   (map fst (range_map env state'));
                      deleteOrder = deleteOrderFromState env state' toDelete
                  in delete_pass env vaultAddr token deleteOrder state' tr)))"

subsection \<open>Reading a run\<close>

text \<open>The requests of a trace, in order.\<close>

definition requests :: "event list \<Rightarrow> request list" where
  "requests tr = concat (map (\<lambda>e. case e of Request rq \<Rightarrow> [rq] | SaveState s \<Rightarrow> []) tr)"

text \<open>
  The state after a key migration: the entry found under \<open>oldKey\<close> sits under the key of
  \<open>r\<close>, with the namespace and path of \<open>r\<close>, and \<open>oldKey\<close> is gone.
\<close>

definition migrated :: "Resource \<Rightarrow> string \<Rightarrow> StateResource \<Rightarrow> State \<Rightarrow> State" where
  "migrated r oldKey prev state =
     AList.delete oldKey
       (AList.update (Key r)
          \<lparr>DataDigest = DataDigest prev, SDependencies = SDependencies prev,
           SIgnoreFailures = SIgnoreFailures prev, ResponseData = ResponseData prev,
           SNamespace = NamespaceOrDefault r, SPath = Path r\<rparr> state)"

text \<open>The request that the delete pass sends for a key of a state.\<close>

definition delete_request :: "string \<Rightarrow> string \<Rightarrow> State \<Rightarrow> string \<Rightarrow> request" where
  "delete_request vaultAddr token state key =
     \<lparr>ReqMethod = ''DELETE'',
      ReqURL = vaultAddr @ ''/v1/'' @ TrimPrefixSlash (SPath (state_at state key)),
      ReqHeader = vault_headers token (SNamespace (state_at state key)),
      ReqBody = []\<rparr>"

text \<open>
  The no-op test of the create pass for \<open>r\<close>: its templates resolve against the state and
  the entry under its key carries the digest of the resolved data and the revision.
\<close>

definition settled :: "env \<Rightarrow> State \<Rightarrow> Resource \<Rightarrow> bool" where
  "settled env state r =
     (case ResolveTemplates env state (Data r) of
        Inl err \<Rightarrow> False
      | Inr resolved \<Rightarrow>
          (case map_of state (Key r) of
             None \<Rightarrow> False
           | Some prev \<Rightarrow>
               DataDigest prev = dataDigestWithRevision env resolved (revisionForDigest (Revision r))))"

subsection \<open>Reading a batch and a state\<close>

text \<open>
  The normalized namespace and path of a resource and of a state entry, which
  \<^verbatim>\<open>FindByNsPath\<close> compares.
\<close>

definition resource_pair :: "Resource \<Rightarrow> string \<times> string" where
  "resource_pair r = (normalizeNamespace (NamespaceOrDefault r), normalizePath (Path r))"

definition entry_pair :: "StateResource \<Rightarrow> string \<times> string" where
  "entry_pair e = (normalizeNamespace (SNamespace e), normalizePath (SPath e))"

text \<open>
  Every entry that the state holds under the effective name of a resource of the batch
  carries the normalized namespace and path of a resource of the batch with that name.
\<close>

definition paired :: "Resource list \<Rightarrow> State \<Rightarrow> bool" where
  "paired rs state =
     list_all (\<lambda>r. case map_of state (Key r) of
                      None \<Rightarrow> True
                    | Some e \<Rightarrow> list_ex (\<lambda>r'. Key r' = Key r \<and> resource_pair r' = entry_pair e) rs) rs"

text \<open>
  A \<^verbatim>\<open>range\<close> over a map visits each key exactly once: the iteration order of the
  environment is a permutation of the keys.
\<close>

definition fair :: "env \<Rightarrow> bool" where
  "fair env \<longleftrightarrow> (\<forall>ks. distinct ks \<longrightarrow> distinct (range_order env ks) \<and> set (range_order env ks) = set ks)"

text \<open>The state at the end of the create pass of \<^verbatim>\<open>Apply\<close>.\<close>

definition create_state :: "env \<Rightarrow> Resource list \<Rightarrow> string \<Rightarrow> string \<Rightarrow> State \<Rightarrow> State" where
  "create_state env resources vaultAddr0 token state =
     (case topologicalOrder resources of
        Inl err \<Rightarrow> state
      | Inr order \<Rightarrow>
          fst (snd (create_pass env (TrimSuffixSlash vaultAddr0) token
                      (map (\<lambda>idx. resources ! idx) order) state [])))"

text \<open>
  The keys that \<^verbatim>\<open>Apply\<close> collects in \<^verbatim>\<open>toDelete\<close>: the keys of the state that are not
  effective names of the batch, in the order of the iteration.
\<close>

definition stale :: "env \<Rightarrow> Resource list \<Rightarrow> State \<Rightarrow> string list" where
  "stale env rs state = filter (\<lambda>key. key \<notin> set (map Key rs)) (map fst (range_map env state))"

text \<open>
  The dependencies stored in the state among the keys \<open>K\<close>: an edge from \<open>u\<close> to \<open>j\<close> when
  the entry of \<open>j\<close> lists \<open>u\<close>.
\<close>

definition stored_edges :: "State \<Rightarrow> string set \<Rightarrow> (string \<times> string) set" where
  "stored_edges state K = {(u, j). u \<in> K \<and> j \<in> K \<and> u \<in> set (SDependencies (state_at state j))}"

text \<open>
  What one iteration of the create pass may do to the state, read as a map: nothing, an
  entry with the namespace and path of the resource written under its key, or, for a
  key migration, such an entry written and the entry found under the old key, which
  carries the same normalized namespace and path, removed.
\<close>

definition create_step :: "Resource \<Rightarrow> (string \<rightharpoonup> StateResource) \<Rightarrow> (string \<rightharpoonup> StateResource) \<Rightarrow> bool" where
  "create_step r m m' \<longleftrightarrow>
     m' = m
     \<or> (\<exists>e. entry_pair e = resource_pair r \<and> m' = m(Key r \<mapsto> e))
     \<or> (\<exists>oldKey prev e. oldKey \<noteq> Key r \<and> m oldKey = Some prev \<and> entry_pair prev = resource_pair r
           \<and> entry_pair e = resource_pair r \<and> m' = (m(Key r \<mapsto> e))(oldKey := None))"



subsection \<open>Errors dropped by a run\<close>



subsection \<open>Dependency graphs\<close>

text \<open>
  The dependency graph of a batch, on the indices of its resources: an edge from \<open>i\<close> to
  \<open>j\<close> when the effective name of resource \<open>i\<close> is listed in the dependencies of
  resource \<open>j\<close>.
\<close>

definition dep_edges :: "Resource list \<Rightarrow> (nat \<times> nat) set" where
  "dep_edges rs =
     {(i, j). i < length rs \<and> j < length rs \<and> EffectiveName (rs ! i) \<in> set (Dependencies (rs ! j))}"

text \<open>In a list, \<open>a\<close> occurs before the first occurrence of \<open>b\<close>.\<close>

definition precedes :: "'a list \<Rightarrow> 'a \<Rightarrow> 'a \<Rightarrow> bool" where
  "precedes xs a b = (b \<in> set xs \<and> a \<in> set (takeWhile (\<lambda>x. x \<noteq> b) xs))"

text \<open>The edges that an adjacency table holds.\<close>

definition adj_edges :: "nat list list \<Rightarrow> (nat \<times> nat) set" where
  "adj_edges adj = {(u, j). u < length adj \<and> j < length adj \<and> j \<in> set (adj ! u)}"

text \<open>
  The invariant of the loop of \<^verbatim>\<open>topologicalOrder\<close> over the queue: the in-degree of a
  node counts its edges from nodes not yet emitted, the nodes emitted or queued are those
  of in-degree zero, each once, and every node was emitted after all its predecessors.
\<close>

definition kahn_inv :: "nat list list \<Rightarrow> nat list \<Rightarrow> int list \<Rightarrow> nat list \<Rightarrow> bool" where
  "kahn_inv adj q d ord \<longleftrightarrow>
     length d = length adj
     \<and> (\<forall>u<length adj. \<forall>v\<in>set (adj ! u). v < length adj)
     \<and> distinct (ord @ q) \<and> (\<forall>x\<in>set (ord @ q). x < length adj)
     \<and> (\<forall>j<length adj. d ! j = int (\<Sum>w\<in>{..<length adj} - set ord. count_list (adj ! w) j))
     \<and> (\<forall>j<length adj. j \<in> set (ord @ q) \<longleftrightarrow> d ! j = 0)
     \<and> (\<forall>pre j post. ord = pre @ j # post \<longrightarrow> (\<forall>w<length adj. j \<in> set (adj ! w) \<longrightarrow> w \<in> set pre))"

text \<open>
  The invariant of the loop of \<^verbatim>\<open>deleteOrderFromState\<close> over the queue, on the keys \<open>K\<close>:
  as for \<^verbatim>\<open>topologicalOrder\<close>, with maps in place of slices.
\<close>

definition keys_inv ::
  "string set \<Rightarrow> (string \<times> string list) list \<Rightarrow> string list \<Rightarrow> (string \<times> int) list \<Rightarrow> string list \<Rightarrow> bool" where
  "keys_inv K adj q d ord \<longleftrightarrow>
     finite K
     \<and> (\<forall>u. \<forall>v\<in>set (at_nil adj u). v \<in> K)
     \<and> distinct (ord @ q) \<and> (\<forall>x\<in>set (ord @ q). x \<in> K)
     \<and> (\<forall>j\<in>K. at0 d j = int (\<Sum>w\<in>K - set ord. count_list (at_nil adj w) j))
     \<and> (\<forall>j\<in>K. j \<in> set (ord @ q) \<longleftrightarrow> at0 d j = 0)
     \<and> (\<forall>pre j post. ord = pre @ j # post \<longrightarrow> (\<forall>w\<in>K. j \<in> set (at_nil adj w) \<longrightarrow> w \<in> set pre))"
section \<open>Shapes of values and example inputs\<close>

text \<open>A value without any interface-keyed map, at any depth.\<close>

fun iface_free :: "val \<Rightarrow> bool" where
  "iface_free (VMapI m) = False"
| "iface_free (VList xs) = list_all iface_free xs"
| "iface_free (VMapS m) = list_all (\<lambda>kv. iface_free (snd kv)) m"
| "iface_free v = True"

text \<open>A value without any \<^verbatim>\<open>map[string]interface{}\<close>, at any depth.\<close>

fun strmap_free :: "val \<Rightarrow> bool" where
  "strmap_free (VMapS m) = False"
| "strmap_free (VList xs) = list_all strmap_free xs"
| "strmap_free (VMapI m) = list_all (\<lambda>kv. strmap_free (snd kv)) m"
| "strmap_free v = True"

text \<open>
  \<^verbatim>\<open>map[string]interface{}{"a": map[interface{}]interface{}{1: "x"}}\<close>: a string-keyed
  map holding a map with an integer key.
\<close>

definition nested_example :: val where
  "nested_example = VMapS [(''a'', VMapI [(KInt 1, VStr ''x'')])]"

text \<open>
  \<^verbatim>\<open>[]interface{}{map[interface{}]interface{}{1: "x", "k": true}, nil}\<close>, as a YAML
  decoder that produces only interface-keyed maps returns it.
\<close>

definition yaml_example :: val where
  "yaml_example = VList [VMapI [(KInt 1, VStr ''x''), (KStr ''k'', VBool True)], VNil]"

text \<open>A document whose only dependency is its own effective name.\<close>

definition selfdep :: Resource where
  "selfdep = \<lparr>Path = ''p'', Data = VMapS [], Namespace = [], Name = [], Revision = 0,
      Dependencies = [''p''], IgnoreFailures = False, Method = []\<rparr>"

text \<open>Two documents, the second depending on the first.\<close>

definition doc_a :: Resource where
  "doc_a = \<lparr>Path = ''auth/token/create'', Data = VMapS [(''policies'', VList [VStr ''default''])],
      Namespace = [], Name = ''a'', Revision = 0, Dependencies = [], IgnoreFailures = False,
      Method = []\<rparr>"

definition doc_b :: Resource where
  "doc_b = \<lparr>Path = ''kv1/s'', Data = VMapS [(''token'', VStr ''<a:client_token>'')],
      Namespace = [], Name = ''b'', Revision = 0, Dependencies = [''a''], IgnoreFailures = False,
      Method = []\<rparr>"

text \<open>
  A history of three signed commits, \<open>c2\<close> at HEAD, then \<open>c1\<close>, then \<open>c0\<close>, which is the
  last applied one.
\<close>

definition c0 :: CommitInfo where "c0 = \<lparr>CommitHash = ''c0'', CommitDate = 5\<rparr>"
definition c1 :: CommitInfo where "c1 = \<lparr>CommitHash = ''c1'', CommitDate = 10\<rparr>"
definition c2 :: CommitInfo where "c2 = \<lparr>CommitHash = ''c2'', CommitDate = 20\<rparr>"

definition history :: repo where
  "history = \<lparr>GetConfig = Some 1, Head = Some ''c2'', GetTrustedPGPPublicKeys = Some [''key''],
      CommitObject = (\<lambda>h. True),
      Log = (\<lambda>h. Some [NextCommit c2, NextCommit c1, NextCommit c0]),
      VerifyCommitSignatures = (\<lambda>h keys n. True), Now = 100\<rparr>"

text \<open>A state whose entry \<open>a\<close> holds the response \<^verbatim>\<open>{"keys": ["k0", "k1"]}\<close>.\<close>

definition keys_state :: State where
  "keys_state = [(''a'', \<lparr>DataDigest = [], SDependencies = [], SIgnoreFailures = False,
      ResponseData = VMapS [(''keys'', VList [VStr ''k0'', VStr ''k1''])],
      SNamespace = [], SPath = ''p''\<rparr>)]"

section \<open>An example target\<close>

text \<open>
  An encoder for the examples, after \<^verbatim>\<open>json.Marshal\<close>: no white space, the entries of
  a map in the byte-wise order of their keys, a string between double quotes with a
  backslash before a double quote or a backslash and the characters \<^verbatim>\<open><\<close>, \<^verbatim>\<open>>\<close> and
  \<^verbatim>\<open>&\<close> written as the escapes \<^verbatim>\<open>u003c\<close>, \<^verbatim>\<open>u003e\<close> and \<^verbatim>\<open>u0026\<close>.  It agrees with
  \<^verbatim>\<open>json.Marshal\<close> on values whose strings are printable ASCII.  An interface-keyed
  map is written like a string-keyed one when all its keys are strings and refused
  otherwise; no example encodes one.
\<close>

fun str_less :: "string \<Rightarrow> string \<Rightarrow> bool" where
  "str_less [] [] = False"
| "str_less [] (y # ys) = True"
| "str_less (x # xs) [] = False"
| "str_less (x # xs) (y # ys) =
     ((of_char x :: nat) < of_char y \<or> (x = y \<and> str_less xs ys))"

fun insert_entry :: "string \<times> string \<Rightarrow> (string \<times> string) list \<Rightarrow> (string \<times> string) list" where
  "insert_entry kv [] = [kv]"
| "insert_entry kv (e # es) =
     (if str_less (fst e) (fst kv) then e # insert_entry kv es else kv # e # es)"

definition sort_entries :: "(string \<times> string) list \<Rightarrow> (string \<times> string) list" where
  "sort_entries kvs = foldr insert_entry kvs []"

definition escape_char :: "char \<Rightarrow> string" where
  "escape_char c =
     (if c = CHR 0x22 then [CHR 0x5C, CHR 0x22]
      else if c = CHR 0x5C then [CHR 0x5C, CHR 0x5C]
      else if c = CHR ''<'' then CHR 0x5C # ''u003c''
      else if c = CHR ''>'' then CHR 0x5C # ''u003e''
      else if c = CHR ''&'' then CHR 0x5C # ''u0026''
      else [c])"

definition quote_string :: "string \<Rightarrow> string" where
  "quote_string s = [CHR 0x22] @ concat (map escape_char s) @ [CHR 0x22]"

fun join_commas :: "string list \<Rightarrow> string" where
  "join_commas [] = []"
| "join_commas [s] = s"
| "join_commas (s # t # ss) = s @ '','' @ join_commas (t # ss)"

definition write_object :: "(string \<times> string) list \<Rightarrow> string" where
  "write_object kvs =
     ''{'' @ join_commas (map (\<lambda>kv. quote_string (fst kv) @ '':'' @ snd kv) (sort_entries kvs)) @ ''}''"

fun is_KStr :: "mkey \<Rightarrow> bool" where
  "is_KStr (KStr s) = True"
| "is_KStr _ = False"

fun marshal_plain :: "val \<Rightarrow> string option" where
  "marshal_plain VNil = Some ''null''"
| "marshal_plain (VBool b) = Some (if b then ''true'' else ''false'')"
| "marshal_plain (VInt i) = Some (show_int i)"
| "marshal_plain (VStr s) = Some (quote_string s)"
| "marshal_plain (VList xs) =
     (if list_all (\<lambda>x. marshal_plain x \<noteq> None) xs
      then Some (''['' @ join_commas (map (\<lambda>x. the (marshal_plain x)) xs) @ '']'')
      else None)"
| "marshal_plain (VMapS m) =
     (if list_all (\<lambda>kv. marshal_plain (snd kv) \<noteq> None) m
      then Some (write_object (map (\<lambda>kv. (fst kv, the (marshal_plain (snd kv)))) m))
      else None)"
| "marshal_plain (VMapI m) =
     (if list_all (\<lambda>kv. is_KStr (fst kv) \<and> marshal_plain (snd kv) \<noteq> None) m
      then Some (write_object (map (\<lambda>kv. (key_string (fst kv), the (marshal_plain (snd kv)))) m))
      else None)"

text \<open>
  A stand-in for SHA-256 in the examples: the first 32 bytes of the input, padded with
  zero bytes.  Like SHA-256 it returns 32 bytes, and it tells apart the envelopes that
  the examples compare.
\<close>

definition sum_prefix :: "string \<Rightarrow> string" where
  "sum_prefix b = take 32 (b @ replicate 32 (CHR 0x00))"

text \<open>
  A target that answers 200 with the body \<^verbatim>\<open>{"data":{"client_token":"T"}}\<close> to a POST
  on \<^verbatim>\<open>auth/token/create\<close> and 204 to everything else; the state writer never fails
  and \<^verbatim>\<open>range\<close> visits maps in the order of their lists.
\<close>

definition token_body :: string where
  "token_body = [CHR ''{'', CHR 0x22] @ ''data'' @ [CHR 0x22] @ '':{'' @ [CHR 0x22] @ ''client_token''
      @ [CHR 0x22] @ '':'' @ [CHR 0x22] @ ''T'' @ [CHR 0x22] @ ''}}''"

definition vault :: env where
  "vault = \<lparr>fmt_compound = (\<lambda>v. []), json_Marshal = marshal_plain,
     json_Unmarshal = (\<lambda>s. if s = token_body
                          then Some [(''data'', VMapS [(''client_token'', VStr ''T'')])] else None),
     Sum256 = sum_prefix,
     range_order = (\<lambda>ks. ks),
     NewRequest_fails = (\<lambda>m u. False),
     Do = (\<lambda>tr rq. if ReqMethod rq = ''POST'' \<and> ReqURL rq = ''http://v/v1/auth/token/create''
                     then Response 200 token_body else Response 204 []),
     writer = Some (\<lambda>tr st. False)\<rparr>"

section \<open>Example batches and states\<close>

text \<open>Two documents that depend on each other.\<close>

definition cyc_x :: Resource where
  "cyc_x = \<lparr>Path = ''kv/x'', Data = VMapS [], Namespace = [], Name = ''x'', Revision = 0,
      Dependencies = [''y''], IgnoreFailures = False, Method = []\<rparr>"

definition cyc_y :: Resource where
  "cyc_y = \<lparr>Path = ''kv/y'', Data = VMapS [], Namespace = [], Name = ''y'', Revision = 0,
      Dependencies = [''x''], IgnoreFailures = False, Method = []\<rparr>"

text \<open>
  A third document that carries the name \<open>x\<close> again and has no dependencies: a batch
  that the linter would reject for the duplicate name.
\<close>

definition dup_x :: Resource where
  "dup_x = \<lparr>Path = ''kv/x2'', Data = VMapS [(''n'', VInt 2)], Namespace = [], Name = ''x'', Revision = 0,
      Dependencies = [], IgnoreFailures = False, Method = []\<rparr>"



text \<open>
  Two documents on the same path with different data, the second one renamed from \<open>y\<close>
  to \<open>z\<close>, and the state left by applying them under the names \<open>x\<close> and \<open>y\<close>.
\<close>

definition same_x :: Resource where
  "same_x = \<lparr>Path = ''kv/p'', Data = VMapS [(''v'', VInt 1)], Namespace = [], Name = ''x'', Revision = 0,
      Dependencies = [], IgnoreFailures = False, Method = []\<rparr>"

definition same_z :: Resource where
  "same_z = \<lparr>Path = ''kv/p'', Data = VMapS [(''v'', VInt 2)], Namespace = [], Name = ''z'', Revision = 0,
      Dependencies = [], IgnoreFailures = False, Method = []\<rparr>"

definition same_state :: State where
  "same_state =
     [(''x'', \<lparr>DataDigest = dataDigestWithRevision vault (VMapS [(''v'', VInt 1)]) 0,
         SDependencies = [], SIgnoreFailures = False, ResponseData = VNil,
         SNamespace = [], SPath = ''kv/p''\<rparr>),
      (''y'', \<lparr>DataDigest = dataDigestWithRevision vault (VMapS [(''v'', VInt 2)]) 0,
         SDependencies = [], SIgnoreFailures = False, ResponseData = VNil,
         SNamespace = [], SPath = ''kv/p''\<rparr>)]"

text \<open>
  A target that answers 404 to every DELETE, the same target with a state writer that
  fails, and the state left by applying the two documents \<open>a\<close> and \<open>b\<close>.
\<close>

definition tombstone :: env where
  "tombstone = vault\<lparr>Do := (\<lambda>tr rq. if ReqMethod rq = ''DELETE'' then Response 404 [] else Response 204 [])\<rparr>"

definition gone :: env where
  "gone = tombstone\<lparr>writer := Some (\<lambda>tr st. True)\<rparr>"

definition ab_state :: State where
  "ab_state = fst (snd (Apply vault [doc_a, doc_b] ''http://v/'' ''tok'' []))"

text \<open>A state whose entry \<open>b\<close> sets \<^verbatim>\<open>ignore_failures\<close>.\<close>

definition lenient_state :: State where
  "lenient_state = [(''b'', \<lparr>DataDigest = ''0'', SDependencies = [], SIgnoreFailures = True,
      ResponseData = VNil, SNamespace = [], SPath = ''kv1/s''\<rparr>)]"

text \<open>
  An encoder that rejects one value, as \<^verbatim>\<open>json.Marshal\<close> rejects a number that is not
  finite (which the value type does not model); a GET document with that data and a state
  that holds it with the empty digest.
\<close>

definition picky :: env where
  "picky = vault\<lparr>json_Marshal := (\<lambda>v. if v = VMapS [(''ratio'', VStr ''.nan'')] then None else marshal_plain v)\<rparr>"

definition nan_doc :: Resource where
  "nan_doc = \<lparr>Path = ''sys/health'', Data = VMapS [(''ratio'', VStr ''.nan'')], Namespace = [], Name = ''h'',
      Revision = 0, Dependencies = [], IgnoreFailures = False, Method = ''GET''\<rparr>"

definition nan_state :: State where
  "nan_state = [(''h'', \<lparr>DataDigest = [], SDependencies = [], SIgnoreFailures = False,
      ResponseData = VNil, SNamespace = [], SPath = ''sys/health''\<rparr>)]"

text \<open>
  A state with one entry that no document of the batch \<open>a\<close>, \<open>b\<close> names; a target that
  answers 503 to every request and a document that sets \<^verbatim>\<open>ignore_failures\<close>; a state of
  two entries that list each other as dependencies; a document \<open>x\<close> whose path was
  changed from \<^verbatim>\<open>kv/p\<close> to \<^verbatim>\<open>kv/q\<close>, a new document \<open>w\<close> on the old path with the same
  data, and the state left by applying \<open>x\<close> on the old path.
\<close>

definition old_state :: State where
  "old_state = [(''old'', \<lparr>DataDigest = ''0'', SDependencies = [], SIgnoreFailures = False,
      ResponseData = VNil, SNamespace = [], SPath = ''kv1/old''\<rparr>)]"

definition sealed :: env where
  "sealed = vault\<lparr>Do := (\<lambda>tr rq. Response 503 [])\<rparr>"

definition optional_doc :: Resource where
  "optional_doc = \<lparr>Path = ''kv1/opt'', Data = VMapS [], Namespace = [], Name = ''opt'', Revision = 0,
      Dependencies = [], IgnoreFailures = True, Method = []\<rparr>"

definition knot_state :: State where
  "knot_state =
     [(''p'', \<lparr>DataDigest = ''0'', SDependencies = [''q''], SIgnoreFailures = False,
         ResponseData = VNil, SNamespace = [], SPath = ''kv1/p''\<rparr>),
      (''q'', \<lparr>DataDigest = ''0'', SDependencies = [''p''], SIgnoreFailures = False,
         ResponseData = VNil, SNamespace = [], SPath = ''kv1/q''\<rparr>)]"

definition moved_x :: Resource where
  "moved_x = \<lparr>Path = ''kv/q'', Data = VMapS [(''v'', VInt 1)], Namespace = [], Name = ''x'', Revision = 0,
      Dependencies = [], IgnoreFailures = False, Method = []\<rparr>"

definition new_w :: Resource where
  "new_w = \<lparr>Path = ''kv/p'', Data = VMapS [(''v'', VInt 1)], Namespace = [], Name = ''w'', Revision = 0,
      Dependencies = [], IgnoreFailures = False, Method = []\<rparr>"

definition moved_state :: State where
  "moved_state =
     [(''x'', \<lparr>DataDigest = dataDigestWithRevision vault (VMapS [(''v'', VInt 1)]) 0,
         SDependencies = [], SIgnoreFailures = False, ResponseData = VNil,
         SNamespace = [], SPath = ''kv/p''\<rparr>)]"
section \<open>Properties of the linter\<close>

lemma lint_resources_dom:
  "lint_resources i m rs = Inr m' \<Longrightarrow> dom m' = dom m \<union> EffectiveName ` set rs"
  by (induction i m rs rule: lint_resources.induct)
     (auto simp: Let_def split: if_splits option.splits)

lemma lint_resources_docs:
  "lint_resources i m rs = Inl e \<Longrightarrow> \<forall>k v. m k = Some v \<longrightarrow> v < i \<Longrightarrow>
   \<forall>n\<in>set (error_docs e). 1 \<le> n \<and> n \<le> i + length rs"
proof (induction i m rs rule: lint_resources.induct)
  case (1 i m) then show ?case by simp
next
  case (2 i m r rs)
  have step: "\<forall>k v. (m(EffectiveName r \<mapsto> i)) k = Some v \<longrightarrow> v < i + 1"
    using "2.prems"(2) by (auto simp: less_Suc_eq)
  show ?case
  proof (cases "m (EffectiveName r)")
    case (Some prev)
    then have "prev < i" using "2.prems"(2) by blast
    then show ?thesis using "2.prems"(1) Some
      by (auto simp: Let_def split: if_splits)
  next
    case None
    show ?thesis
    proof (cases "Path r = [] \<or> Data r = VNil \<or> \<not> isObject (Data r) \<or> Revision r < 0 \<or>
        (let m = ToUpper (TrimSpace (Method r)) in m \<noteq> [] \<and> m \<noteq> ''GET'' \<and> m \<noteq> ''POST'')")
      case True
      then show ?thesis using "2.prems"(1)
        by (auto simp: Let_def split: if_splits)
    next
      case False
      then have rec: "lint_resources (i + 1) (m(EffectiveName r \<mapsto> i)) rs = Inl e"
        using "2.prems"(1) None by (auto simp: Let_def split: if_splits)
      have "\<forall>n\<in>set (error_docs e). 1 \<le> n \<and> n \<le> i + 1 + length rs"
        using False by (intro "2.IH"[OF _ _ _ _ _ refl None rec step]) auto
      then show ?thesis by simp
    qed
  qed
qed

lemma lint_deps_None:
  "lint_deps m r i j ds = None \<longleftrightarrow> (\<forall>d\<in>set ds. d \<noteq> [] \<and> d \<in> dom m)"
  by (induction m r i j ds rule: lint_deps.induct) auto

lemma lint_deps_docs:
  "lint_deps m r i j ds = Some e \<Longrightarrow> error_docs e = [i + 1]"
  by (induction m r i j ds rule: lint_deps.induct) (auto split: if_splits)

lemma lint_dependencies_None:
  "lint_dependencies m i rs = None \<longleftrightarrow> (\<forall>r\<in>set rs. \<forall>d\<in>set (Dependencies r). d \<noteq> [] \<and> d \<in> dom m)"
proof (induction m i rs rule: lint_dependencies.induct)
  case (1 m i) then show ?case by simp
next
  case (2 m i r rs)
  show ?case
  proof (cases "lint_deps m r i 0 (Dependencies r)")
    case None
    then show ?thesis using 2 lint_deps_None[of m r i 0 "Dependencies r"] by simp
  next
    case (Some e)
    then show ?thesis using lint_deps_None[of m r i 0 "Dependencies r"] by auto
  qed
qed

text \<open>The second loop stops at the first document with an offending dependency.\<close>

lemma lint_dependencies_first:
  "lint_dependencies m i rs = Some e \<Longrightarrow>
   \<exists>k<length rs. error_docs e = [i + k + 1]
      \<and> \<not> (\<forall>d\<in>set (Dependencies (rs ! k)). d \<noteq> [] \<and> d \<in> dom m)
      \<and> (\<forall>k'<k. \<forall>d\<in>set (Dependencies (rs ! k')). d \<noteq> [] \<and> d \<in> dom m)"
proof (induction m i rs rule: lint_dependencies.induct)
  case (1 m i) then show ?case by simp
next
  case (2 m i r rs)
  show ?case
  proof (cases "lint_deps m r i 0 (Dependencies r)")
    case None
    then have ok: "\<forall>d\<in>set (Dependencies r). d \<noteq> [] \<and> d \<in> dom m"
      by (simp add: lint_deps_None)
    from None "2.prems" have "lint_dependencies m (i + 1) rs = Some e" by simp
    from "2.IH"[OF None this] obtain k where k: "k < length rs" "error_docs e = [i + 1 + k + 1]"
      "\<not> (\<forall>d\<in>set (Dependencies (rs ! k)). d \<noteq> [] \<and> d \<in> dom m)"
      "\<forall>k'<k. \<forall>d\<in>set (Dependencies (rs ! k')). d \<noteq> [] \<and> d \<in> dom m"
      by blast
    have "\<forall>k'<Suc k. \<forall>d\<in>set (Dependencies ((r # rs) ! k')). d \<noteq> [] \<and> d \<in> dom m"
    proof (intro allI impI)
      fix k' assume "k' < Suc k"
      then show "\<forall>d\<in>set (Dependencies ((r # rs) ! k')). d \<noteq> [] \<and> d \<in> dom m"
        using ok k(4) by (cases k') simp_all
    qed
    then show ?thesis using k(1,2,3)
      by (intro exI[of _ "Suc k"]) simp
  next
    case (Some e')
    then have "e' = e" using "2.prems" by simp
    moreover have "\<not> (\<forall>d\<in>set (Dependencies r). d \<noteq> [] \<and> d \<in> dom m)"
      using Some lint_deps_None[of m r i 0 "Dependencies r"] by auto
    ultimately show ?thesis using lint_deps_docs[OF Some]
      by (intro exI[of _ 0]) simp
  qed
qed

text \<open>
  Claim C7, as amended.  \<^verbatim>\<open>Lint\<close> accepts a batch only if every entry of every
  \<^verbatim>\<open>dependencies\<close> list is non-empty and is the effective name of some document of the
  same batch, which may be the declaring document itself.  Every message names document
  indices between 1 and the number of documents, and when the first loop has passed, the
  message is about the first document (in batch order) that has an offending dependency.
\<close>

theorem Lint_dependencies_resolve:
  "(Lint rs = None \<longrightarrow>
      (\<forall>r\<in>set rs. \<forall>d\<in>set (Dependencies r). d \<noteq> [] \<and> (\<exists>r'\<in>set rs. EffectiveName r' = d)))
   \<and> (\<forall>e. Lint rs = Some e \<longrightarrow> (\<forall>n\<in>set (error_docs e). 1 \<le> n \<and> n \<le> length rs))
   \<and> (\<forall>e m. lint_resources 0 Map.empty rs = Inr m \<and> Lint rs = Some e \<longrightarrow>
        (\<exists>k<length rs. error_docs e = [k + 1] \<and> \<not> deps_resolve rs (rs ! k)
           \<and> (\<forall>k'<k. deps_resolve rs (rs ! k'))))"
proof (intro conjI allI impI)
  assume ok: "Lint rs = None"
  then obtain m where m: "lint_resources 0 Map.empty rs = Inr m"
    and d: "lint_dependencies m 0 rs = None"
    by (auto simp: Lint_def split: sum.splits)
  have "dom m = EffectiveName ` set rs" using lint_resources_dom[OF m] by simp
  then show "\<forall>r\<in>set rs. \<forall>d\<in>set (Dependencies r). d \<noteq> [] \<and> (\<exists>r'\<in>set rs. EffectiveName r' = d)"
    using d unfolding lint_dependencies_None by (metis imageE)
next
  fix e assume e: "Lint rs = Some e"
  show "\<forall>n\<in>set (error_docs e). 1 \<le> n \<and> n \<le> length rs"
  proof (cases "lint_resources 0 Map.empty rs")
    case (Inl e')
    then have "e' = e" using e by (simp add: Lint_def)
    then show ?thesis using lint_resources_docs[OF Inl] by simp
  next
    case (Inr m)
    then have "lint_dependencies m 0 rs = Some e" using e by (simp add: Lint_def)
    from lint_dependencies_first[OF this] show ?thesis by auto
  qed
next
  fix e m assume "lint_resources 0 Map.empty rs = Inr m \<and> Lint rs = Some e"
  then have m: "lint_resources 0 Map.empty rs = Inr m" and e: "lint_dependencies m 0 rs = Some e"
    by (auto simp: Lint_def)
  have dom: "dom m = EffectiveName ` set rs" using lint_resources_dom[OF m] by simp
  from lint_dependencies_first[OF e] show
    "\<exists>k<length rs. error_docs e = [k + 1] \<and> \<not> deps_resolve rs (rs ! k)
       \<and> (\<forall>k'<k. deps_resolve rs (rs ! k'))"
    unfolding deps_resolve_def dom by simp
qed

lemma Lint_doc_a_doc_b: "Lint [doc_a, doc_b] = None"
  by (simp add: Lint_def doc_a_def doc_b_def EffectiveName_def ToUpper_def TrimSpace_def)

lemma Lint_doc_b: "Lint [doc_b] = Some (DepNotFound ''kv1/s'' 1 ''a'')"
  by (simp add: Lint_def doc_b_def EffectiveName_def ToUpper_def TrimSpace_def)

theorem Lint_dependencies_resolve_witness:
  "Lint [doc_a, doc_b] = None
   \<and> ''a'' \<in> set (Dependencies doc_b)
   \<and> (\<exists>r'\<in>set [doc_a, doc_b]. EffectiveName r' = ''a'')
   \<and> Lint [doc_b] = Some (DepNotFound ''kv1/s'' 1 ''a'')
   \<and> (\<exists>k<length [doc_b]. error_docs (DepNotFound ''kv1/s'' 1 ''a'') = [k + 1]
         \<and> \<not> deps_resolve [doc_b] ([doc_b] ! k))"
proof -
  have ok: "Lint [doc_a, doc_b] = None" by (rule Lint_doc_a_doc_b)
  have dep: "''a'' \<in> set (Dependencies doc_b)" by (simp add: doc_b_def)
  have "\<forall>r\<in>set [doc_a, doc_b]. \<forall>d\<in>set (Dependencies r). d \<noteq> [] \<and> (\<exists>r'\<in>set [doc_a, doc_b]. EffectiveName r' = d)"
    using Lint_dependencies_resolve[of "[doc_a, doc_b]"] ok by blast
  then have res: "\<exists>r'\<in>set [doc_a, doc_b]. EffectiveName r' = ''a''"
    using dep by simp
  have bad: "Lint [doc_b] = Some (DepNotFound ''kv1/s'' 1 ''a'')" by (rule Lint_doc_b)
  have "lint_resources 0 Map.empty [doc_b] = Inr [''b'' \<mapsto> 0]"
    by (simp add: doc_b_def EffectiveName_def ToUpper_def TrimSpace_def)
  then have "\<exists>k<length [doc_b]. error_docs (DepNotFound ''kv1/s'' 1 ''a'') = [k + 1]
         \<and> \<not> deps_resolve [doc_b] ([doc_b] ! k)"
    using Lint_dependencies_resolve[of "[doc_b]"] bad by blast
  then show ?thesis using ok dep res bad by blast
qed

text \<open>
  Claim C7 as stated fails: \<^verbatim>\<open>Lint\<close> accepts the batch made of one document whose
  only dependency is its own effective name, so the dependency resolves to no document
  other than the declaring one.
\<close>

theorem Lint_accepts_self_dependency:
  "Lint [selfdep] = None \<and> Dependencies selfdep = [EffectiveName selfdep]"
  by (simp add: Lint_def selfdep_def EffectiveName_def NamespaceOrDefault_def normalizeNamespace_def
       normalizePath_def ToUpper_def TrimSpace_def Let_def)

section \<open>Properties of the normalizer\<close>

lemma map_of_fold_update:
  "map_of (fold (\<lambda>kv m. AList.update (fst kv) (snd kv) m) kvs acc) = map_of acc ++ map_of (rev kvs)"
proof (induction kvs arbitrary: acc)
  case Nil then show ?case by simp
next
  case (Cons kv kvs)
  show ?case
    by (simp add: Cons.IH update_conv' map_add_def fun_eq_iff split: option.splits)
qed

lemma map_of_assign_all: "map_of (assign_all kvs) = map_of (rev kvs)"
  by (simp add: assign_all_def map_of_fold_update)

lemma distinct_fold_update:
  "distinct (map fst acc) \<Longrightarrow> distinct (map fst (fold (\<lambda>kv m. AList.update (fst kv) (snd kv) m) kvs acc))"
  by (induction kvs arbitrary: acc) (simp_all add: distinct_update)

lemma distinct_assign_all: "distinct (map fst (assign_all kvs))"
  by (simp add: assign_all_def distinct_fold_update)

lemma update_all_snd:
  "\<forall>kv\<in>set acc. P (snd kv) \<Longrightarrow> P v \<Longrightarrow> \<forall>kv\<in>set (AList.update k v acc). P (snd kv)"
  by (induction acc) auto

lemma fold_update_all_snd:
  "\<forall>kv\<in>set acc. P (snd kv) \<Longrightarrow> \<forall>kv\<in>set kvs. P (snd kv) \<Longrightarrow>
   \<forall>kv\<in>set (fold (\<lambda>kv m. AList.update (fst kv) (snd kv) m) kvs acc). P (snd kv)"
proof (induction kvs arbitrary: acc)
  case Nil then show ?case by simp
next
  case (Cons kv kvs)
  have "\<forall>x\<in>set (AList.update (fst kv) (snd kv) acc). P (snd x)"
    using Cons.prems by (intro update_all_snd) auto
  then show ?case using Cons.IH[of "AList.update (fst kv) (snd kv) acc"] Cons.prems(2) by simp
qed

lemma assign_all_snd:
  "\<forall>kv\<in>set kvs. P (snd kv) \<Longrightarrow> \<forall>kv\<in>set (assign_all kvs). P (snd kv)"
  unfolding assign_all_def by (rule fold_update_all_snd) simp_all

lemma normalizeValue_iface_free: "strmap_free v \<Longrightarrow> iface_free (normalizeValue v)"
proof (induction v)
  case (VList xs)
  then show ?case by (auto simp: list_all_iff)
next
  case (VMapI m)
  have "\<forall>kv\<in>set (map (\<lambda>kv. (key_string (fst kv), normalizeValue (snd kv))) m). iface_free (snd kv)"
    using VMapI by (fastforce simp: list_all_iff)
  then have "\<forall>kv\<in>set (assign_all (map (\<lambda>kv. (key_string (fst kv), normalizeValue (snd kv))) m)). iface_free (snd kv)"
    by (rule assign_all_snd)
  then show ?case by (simp add: list_all_iff)
qed simp_all

text \<open>
  Claim C6, as amended.  \<^verbatim>\<open>normalizeValue\<close> rebuilds every interface-keyed map it
  reaches through lists and interface-keyed maps as a string-keyed map: the entry under a
  string \<open>s\<close> is the normalized value of the last entry (in iteration order) whose key
  stringifies to \<open>s\<close>, non-string keys stringifying to the empty string.  A list keeps its
  length and order, each element normalized.  Every other value is returned as it is: the
  leaves, and also a \<^verbatim>\<open>map[string]interface{}\<close>, whose values are not visited.  Hence a
  value that holds no \<^verbatim>\<open>map[string]interface{}\<close> comes out free of interface-keyed maps.
\<close>

theorem normalizeValue_shape:
  "normalizeValue VNil = VNil \<and> normalizeValue (VBool b) = VBool b
   \<and> normalizeValue (VInt i) = VInt i \<and> normalizeValue (VStr s) = VStr s
   \<and> normalizeValue (VMapS ms) = VMapS ms
   \<and> (\<exists>ys. normalizeValue (VList xs) = VList ys \<and> length ys = length xs
         \<and> (\<forall>n<length xs. ys ! n = normalizeValue (xs ! n)))
   \<and> (\<exists>m. normalizeValue (VMapI x) = VMapS m \<and> distinct (map fst m)
         \<and> (\<forall>k. map_of m k = map_of (rev (map (\<lambda>kv. (key_string (fst kv), normalizeValue (snd kv))) x)) k)
         \<and> (\<forall>k\<in>fst ` set x. (\<forall>t. k \<noteq> KStr t) \<longrightarrow> key_string k = []))
   \<and> (strmap_free v \<longrightarrow> iface_free (normalizeValue v))"
proof -
  have "\<forall>k\<in>fst ` set x. (\<forall>t. k \<noteq> KStr t) \<longrightarrow> key_string k = []"
  proof (intro ballI impI)
    fix k assume "\<forall>t. k \<noteq> KStr t" then show "key_string k = []" by (cases k) simp_all
  qed
  then show ?thesis
    by (simp add: map_of_assign_all distinct_assign_all normalizeValue_iface_free rev_map)
qed

theorem normalizeValue_shape_witness:
  "strmap_free yaml_example \<and> iface_free (normalizeValue yaml_example)
   \<and> normalizeValue yaml_example = VList [VMapS [('''', VStr ''x''), (''k'', VBool True)], VNil]"
  using normalizeValue_shape[of undefined undefined undefined "[]" "[]" "[]" yaml_example]
  by (simp add: yaml_example_def assign_all_def)

text \<open>
  Claim C6 as stated fails on a \<^verbatim>\<open>map[string]interface{}\<close>: it is returned as it is, and
  the map with a non-string key inside it is not converted.
\<close>

theorem normalizeValue_keeps_string_keyed_map:
  "normalizeValue nested_example = nested_example \<and> \<not> iface_free (normalizeValue nested_example)"
  by (simp add: nested_example_def)

section \<open>Properties of the commit gate\<close>

lemma walk_commits:
  "walk g keys q (case lf of None \<Rightarrow> [] | Some l \<Rightarrow> CommitHash l) lf (map NextCommit cs)
     = Inr (newest_qualifying g keys q lf cs)"
  by (induction cs)
     (auto simp: newest_qualifying_def newer_commits_def is_boundary_def qualifies_def split: option.splits)

lemma find_takeWhile_Some:
  "find P (takeWhile Q xs) = Some c \<Longrightarrow>
   \<exists>pre post. xs = pre @ c # post \<and> P c \<and> Q c \<and> (\<forall>x\<in>set pre. Q x \<and> \<not> P x)"
proof (induction xs)
  case Nil then show ?case by simp
next
  case (Cons x xs)
  show ?case
  proof (cases "Q x \<and> \<not> P x")
    case True
    then have "find P (takeWhile Q xs) = Some c" using Cons.prems by simp
    from Cons.IH[OF this] obtain pre post where
      "xs = pre @ c # post" "P c" "Q c" "\<forall>x\<in>set pre. Q x \<and> \<not> P x" by blast
    then show ?thesis using True by (intro exI[of _ "x # pre"] exI[of _ post]) simp
  next
    case False
    then have "x = c \<and> P c \<and> Q c" using Cons.prems by (auto split: if_splits)
    then show ?thesis by (intro exI[of _ "[]"] exI[of _ xs]) simp
  qed
qed

text \<open>
  Claim C1, as amended.  When the configuration, HEAD, the trusted keys and the commit
  iterator are obtained without error, the commit selected is the first qualifying commit
  met on the walk backward from HEAD that stops at the hash of the last applied commit:
  the qualifying commit nearest to HEAD, that is the newest one, every commit walked
  before it failing to qualify.  Nothing is selected when HEAD is the last applied commit
  or no commit before the boundary qualifies.
\<close>

theorem FindFirstSignedCommitFromRepo_newest:
  assumes "GetConfig g = Some required" and "Head g = Some h"
    and "GetTrustedPGPPublicKeys g = Some keys" and "CommitObject g h"
    and "Log g h = Some (map NextCommit cs)"
  shows "FindFirstSignedCommitFromRepo g lf =
           Inr (if is_boundary lf h then None else newest_qualifying g keys required lf cs)
    \<and> (\<forall>c. FindFirstSignedCommitFromRepo g lf = Inr (Some c) \<longrightarrow>
          (\<exists>pre post. cs = pre @ c # post
             \<and> qualifies g keys required lf c \<and> \<not> is_boundary lf (CommitHash c)
             \<and> (\<forall>x\<in>set pre. \<not> is_boundary lf (CommitHash x) \<and> \<not> qualifies g keys required lf x)))"
proof -
  have eq: "FindFirstSignedCommitFromRepo g lf =
           Inr (if is_boundary lf h then None else newest_qualifying g keys required lf cs)"
    using assms walk_commits[of g keys required lf cs]
    by (auto simp: FindFirstSignedCommitFromRepo_def is_boundary_def Let_def split: option.splits)
  show ?thesis
  proof (intro conjI allI impI)
    show "FindFirstSignedCommitFromRepo g lf =
           Inr (if is_boundary lf h then None else newest_qualifying g keys required lf cs)"
      by (rule eq)
  next
    fix c assume "FindFirstSignedCommitFromRepo g lf = Inr (Some c)"
    then have "newest_qualifying g keys required lf cs = Some c"
      using eq by (auto split: if_splits)
    from find_takeWhile_Some[OF this[unfolded newest_qualifying_def newer_commits_def]]
    show "\<exists>pre post. cs = pre @ c # post
             \<and> qualifies g keys required lf c \<and> \<not> is_boundary lf (CommitHash c)
             \<and> (\<forall>x\<in>set pre. \<not> is_boundary lf (CommitHash x) \<and> \<not> qualifies g keys required lf x)"
      by blast
  qed
qed

theorem FindFirstSignedCommitFromRepo_newest_witness:
  "FindFirstSignedCommitFromRepo history (Some c0) = Inr (Some c2)
   \<and> newest_qualifying history [''key''] 1 (Some c0) [c2, c1, c0] = Some c2"
proof -
  have "FindFirstSignedCommitFromRepo history (Some c0) =
      Inr (if is_boundary (Some c0) ''c2'' then None
           else newest_qualifying history [''key''] 1 (Some c0) [c2, c1, c0])"
    using FindFirstSignedCommitFromRepo_newest[of history 1 "''c2''" "[''key'']" "[c2, c1, c0]" "Some c0"]
    by (simp add: history_def)
  moreover have "\<not> is_boundary (Some c0) ''c2''" by (simp add: is_boundary_def c0_def)
  moreover have "newest_qualifying history [''key''] 1 (Some c0) [c2, c1, c0] = Some c2"
    by (simp add: newest_qualifying_def newer_commits_def is_boundary_def qualifies_def
        history_def c0_def c1_def c2_def)
  ultimately show ?thesis by simp
qed

text \<open>
  Claim C1 as stated fails.  With \<open>c2\<close> at HEAD, \<open>c1\<close> below it and \<open>c0\<close> applied last, all
  three signed, \<open>c1\<close> is a qualifying commit newer than the last applied one and older
  than \<open>c2\<close>; the commit selected is \<open>c2\<close>, not the oldest qualifying one.
\<close>

theorem FindFirstSignedCommitFromRepo_not_oldest:
  "FindFirstSignedCommitFromRepo history (Some c0) = Inr (Some c2)
   \<and> newer_commits (Some c0) [c2, c1, c0] = [c2, c1]
   \<and> qualifies history [''key''] 1 (Some c0) c1
   \<and> CommitDate c1 < CommitDate c2"
  by (simp add: FindFirstSignedCommitFromRepo_def newer_commits_def is_boundary_def qualifies_def
      history_def c0_def c1_def c2_def)

section \<open>Properties of the template resolver\<close>

text \<open>
  Claim C5 fails on a list segment that starts with digits and goes on with other
  characters.  \<^verbatim>\<open>fmt.Sscanf\<close> with \<^verbatim>\<open>%d\<close> reads the leading digits and reports no error
  for the rest, so the segment \<^verbatim>\<open>1x\<close> selects the element of index 1, and the template
  \<^verbatim>\<open><a:keys.1x>\<close> resolves instead of failing with \<^verbatim>\<open>path not found\<close>.  A sign or
  leading blanks are accepted in the same way.
\<close>

theorem getResponseDataPath_accepts_non_integer_segment:
  "Sscanf_d ''1x'' = Some 1
   \<and> getResponseDataPath (VMapS [(''keys'', VList [VStr ''k0'', VStr ''k1''])]) ''keys.1x'' = Some (VStr ''k1'')
   \<and> getResponseDataPath (VMapS [(''keys'', VList [VStr ''k0'', VStr ''k1''])]) ''keys.+1'' = Some (VStr ''k1'')
   \<and> resolveTemplateString env keys_state ''<a:keys.1x>'' = Inr ''k1''"
  by (simp add: resolveTemplateString_def SplitN2_def keys_state_def Sprint_def
      getResponseDataPath_def Sscanf_d_def is_blank_def is_digit_def digits_value_def)

theorem getResponseDataPath_accepts_non_integer_segment_witness:
  "resolveTemplateString vault keys_state ''<a:keys.1x>'' = Inr ''k1''"
  using getResponseDataPath_accepts_non_integer_segment[of vault] by simp

section \<open>Properties of the topological order\<close>

lemma relax_result:
  "relax vs d q = Some (d', q') \<Longrightarrow>
   length d' = length d
   \<and> (\<forall>j<length d. d' ! j = d ! j - int (count_list vs j))
   \<and> (\<exists>new. q' = q @ new \<and> distinct new
          \<and> set new = {j \<in> set vs. 1 \<le> d ! j \<and> d ! j \<le> int (count_list vs j)})"
proof (induction vs arbitrary: d q)
  case Nil
  then show ?case by simp
next
  case (Cons v vs)
  from Cons.prems have v: "v < length d" by (simp split: if_splits)
  define d1 where "d1 = d[v := d ! v - 1]"
  define q1 where "q1 = (if d1 ! v = 0 then q @ [v] else q)"
  have rec: "relax vs d1 q1 = Some (d', q')"
    using Cons.prems v by (simp add: d1_def q1_def Let_def)
  have d1v: "d1 ! v = d ! v - 1" and d1o: "\<And>j. j \<noteq> v \<Longrightarrow> d1 ! j = d ! j" and len1: "length d1 = length d"
    using v by (simp_all add: d1_def)
  from Cons.IH[OF rec] obtain new where
    len: "length d' = length d1" and val: "\<forall>j<length d1. d' ! j = d1 ! j - int (count_list vs j)"
    and q': "q' = q1 @ new" and dn: "distinct new"
    and sn: "set new = {j \<in> set vs. 1 \<le> d1 ! j \<and> d1 ! j \<le> int (count_list vs j)}"
    by blast
  have A: "\<forall>j<length d. d' ! j = d ! j - int (count_list (v # vs) j)"
  proof (intro allI impI)
    fix j assume "j < length d"
    then show "d' ! j = d ! j - int (count_list (v # vs) j)"
      using val len1 d1v d1o[of j] by (cases "j = v") auto
  qed
  define new' where "new' = (if d ! v = 1 then v # new else new)"
  have B: "q' = q @ new'"
    by (simp add: q' q1_def new'_def d1v)
  have vnew: "v \<in> set new \<longleftrightarrow> v \<in> set vs \<and> 2 \<le> d ! v \<and> d ! v \<le> int (count_list vs v) + 1"
    using sn d1v by auto
  have C: "distinct new'"
    using dn vnew by (auto simp: new'_def)
  have D: "set new' = {j \<in> set (v # vs). 1 \<le> d ! j \<and> d ! j \<le> int (count_list (v # vs) j)}"
  proof (intro set_eqI iffI)
    fix j assume j: "j \<in> set new'"
    show "j \<in> {j \<in> set (v # vs). 1 \<le> d ! j \<and> d ! j \<le> int (count_list (v # vs) j)}"
    proof (cases "j = v")
      case True
      then show ?thesis using j vnew by (auto simp: new'_def split: if_splits)
    next
      case False
      then have "j \<in> set new" using j by (auto simp: new'_def split: if_splits)
      then show ?thesis using sn False d1o[of j] by auto
    qed
  next
    fix j assume j: "j \<in> {j \<in> set (v # vs). 1 \<le> d ! j \<and> d ! j \<le> int (count_list (v # vs) j)}"
    show "j \<in> set new'"
    proof (cases "j = v")
      case True
      show ?thesis
      proof (cases "d ! v = 1")
        case True then show ?thesis using \<open>j = v\<close> by (simp add: new'_def)
      next
        case False
        then have "2 \<le> d ! v" "d ! v \<le> int (count_list vs v) + 1" using j True by auto
        moreover from this have "v \<in> set vs" by (cases "count_list vs v = 0") (auto simp: count_list_0_iff)
        ultimately show ?thesis using vnew True by (simp add: new'_def)
      qed
    next
      case False
      then have "j \<in> set new" using j sn d1o[of j] by auto
      then show ?thesis by (simp add: new'_def)
    qed
  qed
  have "\<exists>new. q' = q @ new \<and> distinct new
          \<and> set new = {j \<in> set (v # vs). 1 \<le> d ! j \<and> d ! j \<le> int (count_list (v # vs) j)}"
    using B C D by (intro exI[of _ new']) simp
  then show ?case using len len1 A by simp
qed

lemma relax_Some:
  "\<forall>v\<in>set vs. v < length d \<Longrightarrow> \<exists>d' q'. relax vs d q = Some (d', q')"
  by (induction vs arbitrary: d q) (auto simp: Let_def)

lemma kahn_inv_step:
  assumes inv: "kahn_inv adj (u # q) d ord"
  shows "\<exists>d' q'. relax (adj ! u) d q = Some (d', q') \<and> kahn_inv adj q' d' (ord @ [u])"
proof -
  define n where "n = length adj"
  define c where "c = (\<lambda>w j. count_list (adj ! w) j)"
  define A where "A = {..<n} - set ord"
  note defs = n_def c_def A_def
  from inv have len: "length d = n"
    and rng: "\<forall>u<n. \<forall>v\<in>set (adj ! u). v < n"
    and dist: "distinct (ord @ u # q)" and bnd: "\<forall>x\<in>set (ord @ u # q). x < n"
    and deg: "\<forall>j<n. d ! j = int (\<Sum>w\<in>A. c w j)"
    and zero: "\<forall>j<n. j \<in> set (ord @ u # q) \<longleftrightarrow> d ! j = 0"
    and prec: "\<forall>pre j post. ord = pre @ j # post \<longrightarrow> (\<forall>w<n. j \<in> set (adj ! w) \<longrightarrow> w \<in> set pre)"
    unfolding kahn_inv_def n_def c_def A_def by blast+
  have un: "u < n" using bnd by simp
  have uA: "u \<in> A" using dist un by (simp add: A_def)
  have finA: "finite A" by (simp add: A_def)
  have A': "{..<n} - set (ord @ [u]) = A - {u}" by (auto simp: A_def)
  have split: "\<And>j. (\<Sum>w\<in>A. c w j) = c u j + (\<Sum>w\<in>A - {u}. c w j)"
    using sum.remove[OF finA uA] by simp
  have "\<forall>v\<in>set (adj ! u). v < length d" using rng un len by simp
  from relax_Some[OF this] obtain d' q' where r: "relax (adj ! u) d q = Some (d', q')" by blast
  from relax_result[OF r] obtain new where
    len': "length d' = n" and val: "\<forall>j<n. d' ! j = d ! j - int (c u j)"
    and q': "q' = q @ new" and dn: "distinct new"
    and sn: "set new = {j \<in> set (adj ! u). 1 \<le> d ! j \<and> d ! j \<le> int (c u j)}"
    unfolding c_def using len by auto
  have newn: "\<forall>j\<in>set new. j < n" using sn rng un by auto
  have deg': "\<forall>j<n. d' ! j = int (\<Sum>w\<in>A - {u}. c w j)"
    using val deg split by simp
  have newfresh: "\<forall>j\<in>set new. j \<notin> set (ord @ u # q)"
  proof
    fix j assume j: "j \<in> set new"
    then have "j < n" "d ! j \<noteq> 0" using newn sn by auto
    then show "j \<notin> set (ord @ u # q)" using zero by blast
  qed
  have dist': "distinct ((ord @ [u]) @ q')"
    using dist dn newfresh by (auto simp: q')
  have bnd': "\<forall>x\<in>set ((ord @ [u]) @ q'). x < n"
    using bnd newn by (auto simp: q')
  have zero': "\<forall>j<n. j \<in> set ((ord @ [u]) @ q') \<longleftrightarrow> d' ! j = 0"
  proof (intro allI impI)
    fix j assume jn: "j < n"
    define S where "S = (\<Sum>w\<in>A - {u}. c w j)"
    have dj: "d ! j = int (c u j) + int S" using deg split jn unfolding S_def by simp
    have d'j: "d' ! j = int S" using deg' jn unfolding S_def by simp
    show "j \<in> set ((ord @ [u]) @ q') \<longleftrightarrow> d' ! j = 0"
    proof
      assume "j \<in> set ((ord @ [u]) @ q')"
      then consider "j \<in> set (ord @ u # q)" | "j \<in> set new" by (auto simp: q')
      then show "d' ! j = 0"
      proof cases
        case 1
        then have "d ! j = 0" using zero jn by blast
        then show ?thesis using dj d'j by simp
      next
        case 2
        then have "d ! j \<le> int (c u j)" using sn by simp
        then show ?thesis using dj d'j by simp
      qed
    next
      assume z: "d' ! j = 0"
      then have eq: "d ! j = int (c u j)" using dj d'j by simp
      show "j \<in> set ((ord @ [u]) @ q')"
      proof (cases "d ! j = 0")
        case True
        then have "j \<in> set (ord @ u # q)" using zero jn by blast
        then show ?thesis by (auto simp: q')
      next
        case False
        then have "1 \<le> d ! j" "c u j \<noteq> 0" using eq by simp_all
        then have "j \<in> set (adj ! u)" by (auto simp: c_def count_list_0_iff)
        then have "j \<in> set new" using sn eq \<open>1 \<le> d ! j\<close> by simp
        then show ?thesis by (simp add: q')
      qed
    qed
  qed
  have prec': "\<forall>pre j post. ord @ [u] = pre @ j # post \<longrightarrow> (\<forall>w<n. j \<in> set (adj ! w) \<longrightarrow> w \<in> set pre)"
  proof (intro allI impI)
    fix pre j post w
    assume eq: "ord @ [u] = pre @ j # post" and wn: "w < n" and jw: "j \<in> set (adj ! w)"
    show "w \<in> set pre"
    proof (cases post rule: rev_cases)
      case Nil
      then have pj: "pre = ord" "j = u" using eq by simp_all
      have "u \<in> set (ord @ u # q)" by simp
      then have "d ! u = 0" using zero un by blast
      with deg[rule_format, OF un] have "int (\<Sum>w\<in>A. c w u) = 0" by (simp only:)
      then have "(\<Sum>w\<in>A. c w u) = 0" by (simp only: of_nat_eq_0_iff)
      then have "\<forall>w\<in>A. c w u = 0" using finA by simp
      moreover have "c w u \<noteq> 0" using jw pj by (simp add: c_def count_list_0_iff)
      ultimately have "w \<notin> A" by auto
      then show ?thesis using wn pj by (simp add: A_def)
    next
      case (snoc post' x)
      then have "ord = pre @ j # post'" using eq by simp
      then show ?thesis using prec wn jw by blast
    qed
  qed
  have deg'': "\<forall>j<n. d' ! j = int (\<Sum>w\<in>{..<n} - set (ord @ [u]). c w j)"
    using deg' unfolding A' .
  have "kahn_inv adj q' d' (ord @ [u])"
    unfolding kahn_inv_def
    using len'[unfolded defs] rng[unfolded defs] dist' bnd'[unfolded defs] deg''[unfolded defs]
      zero'[unfolded defs] prec'[unfolded defs]
    by (intro conjI) assumption+
  then show ?thesis using r by blast
qed

lemma drain_inv:
  "kahn_inv adj q d ord \<Longrightarrow> \<exists>res d'. drain adj q d ord = Some res \<and> kahn_inv adj [] d' res"
proof (induction adj q d ord rule: drain.induct)
  case (1 adj d ord)
  then show ?case by auto
next
  case (2 adj u q d ord)
  from kahn_inv_step[OF "2.prems"] obtain d' q' where
    r: "relax (adj ! u) d q = Some (d', q')" and inv': "kahn_inv adj q' d' (ord @ [u])" by blast
  have un: "u < length adj" using "2.prems" by (simp add: kahn_inv_def)
  from "2.IH"[OF un r refl inv'] show ?case using un r by simp
qed

lemma index_by_name_Some:
  "index_by_name i rs m name = Some k \<Longrightarrow>
   (m name = Some k \<and> name \<notin> EffectiveName ` set rs)
   \<or> (i \<le> k \<and> k < i + length rs \<and> EffectiveName (rs ! (k - i)) = name)"
proof (induction rs arbitrary: i m)
  case Nil then show ?case by simp
next
  case (Cons r rs)
  have rec: "index_by_name (i + 1) rs (m(EffectiveName r \<mapsto> i)) name = Some k"
    using Cons.prems by simp
  from Cons.IH[OF rec] show ?case
  proof
    assume a: "(m(EffectiveName r \<mapsto> i)) name = Some k \<and> name \<notin> EffectiveName ` set rs"
    show ?thesis
    proof (cases "name = EffectiveName r")
      case True then show ?thesis using a by simp
    next
      case False then show ?thesis using a by simp
    qed
  next
    assume a: "i + 1 \<le> k \<and> k < i + 1 + length rs \<and> EffectiveName (rs ! (k - (i + 1))) = name"
    then obtain m' where "k - i = Suc m'" "k - (i + 1) = m'" by (cases "k - i") auto
    then have "(r # rs) ! (k - i) = rs ! (k - (i + 1))" by simp
    then show ?thesis using a by auto
  qed
qed

lemma index_by_name_keep:
  "name \<notin> EffectiveName ` set rs \<Longrightarrow> index_by_name i rs m name = m name"
  by (induction rs arbitrary: i m) auto

lemma index_by_name_distinct:
  "distinct (map EffectiveName rs) \<Longrightarrow> j < length rs \<Longrightarrow>
   index_by_name i rs m (EffectiveName (rs ! j)) = Some (i + j)"
proof (induction rs arbitrary: i m j)
  case Nil then show ?case by simp
next
  case (Cons r rs)
  show ?case
  proof (cases j)
    case 0
    then show ?thesis using Cons.prems by (simp add: index_by_name_keep)
  next
    case (Suc j')
    then have "index_by_name (i + 1) rs (m(EffectiveName r \<mapsto> i)) (EffectiveName (rs ! j')) = Some (i + 1 + j')"
      using Cons.prems by (intro Cons.IH) simp_all
    then show ?thesis using Suc by simp
  qed
qed

lemma add_dependencies_result:
  assumes "\<forall>dep k. byName dep = Some k \<longrightarrow> k < length adj"
    and "add_dependencies byName i ds (d, adj) = (d', adj')"
  shows "length d' = length d \<and> length adj' = length adj
    \<and> (\<forall>u<length adj. adj' ! u = adj ! u @ replicate (length (filter (\<lambda>dep. byName dep = Some u) ds)) i)
    \<and> (i < length d \<longrightarrow> d' ! i = d ! i + int (length (filter (\<lambda>dep. byName dep \<noteq> None) ds)))
    \<and> (\<forall>j. j \<noteq> i \<longrightarrow> d' ! j = d ! j)"
  using assms
proof (induction ds arbitrary: d adj)
  case Nil
  then show ?case by simp
next
  case (Cons dep ds)
  show ?case
  proof (cases "byName dep")
    case None
    then have "add_dependencies byName i ds (d, adj) = (d', adj')" using Cons.prems(2) by simp
    from Cons.IH[OF Cons.prems(1) this] show ?thesis using None by simp
  next
    case (Some k)
    then have k: "k < length adj" using Cons.prems(1) by blast
    let ?d1 = "d[i := d ! i + 1]" and ?a1 = "adj[k := adj ! k @ [i]]"
    have rec: "add_dependencies byName i ds (?d1, ?a1) = (d', adj')"
      using Cons.prems(2) Some by simp
    have b: "\<forall>dep k. byName dep = Some k \<longrightarrow> k < length ?a1" using Cons.prems(1) by simp
    from Cons.IH[OF b rec] have
      l: "length d' = length d" "length adj' = length adj"
      and a: "\<forall>u<length adj. adj' ! u = ?a1 ! u @ replicate (length (filter (\<lambda>dep. byName dep = Some u) ds)) i"
      and di: "i < length d \<longrightarrow> d' ! i = ?d1 ! i + int (length (filter (\<lambda>dep. byName dep \<noteq> None) ds))"
      and dj: "\<forall>j. j \<noteq> i \<longrightarrow> d' ! j = ?d1 ! j"
      by simp_all
    have "\<forall>u<length adj. adj' ! u = adj ! u @ replicate (length (filter (\<lambda>dep. byName dep = Some u) (dep # ds))) i"
    proof (intro allI impI)
      fix u assume u: "u < length adj"
      show "adj' ! u = adj ! u @ replicate (length (filter (\<lambda>dep. byName dep = Some u) (dep # ds))) i"
        using a[rule_format, OF u] Some k u by (cases "u = k") (simp_all add: replicate_app_Cons_same)
    qed
    moreover have "i < length d \<longrightarrow> d' ! i = d ! i + int (length (filter (\<lambda>dep. byName dep \<noteq> None) (dep # ds)))"
      using di Some by simp
    moreover have "\<forall>j. j \<noteq> i \<longrightarrow> d' ! j = d ! j" using dj by simp
    ultimately show ?thesis using l by blast
  qed
qed

lemma count_list_replicate: "count_list (replicate m x) a = (if a = x then m else 0)"
  by (induction m) auto

lemma add_edges_result:
  assumes "\<forall>dep k. byName dep = Some k \<longrightarrow> k < length adj"
    and "add_edges byName i rs (d, adj) = (d', adj')"
    and "i + length rs \<le> length d"
  shows "length d' = length d \<and> length adj' = length adj
    \<and> (\<forall>u<length adj. \<forall>j. count_list (adj' ! u) j = count_list (adj ! u) j
          + (if i \<le> j \<and> j < i + length rs
             then length (filter (\<lambda>dep. byName dep = Some u) (Dependencies (rs ! (j - i)))) else 0))
    \<and> (\<forall>j<length d. d' ! j = d ! j
          + (if i \<le> j \<and> j < i + length rs
             then int (length (filter (\<lambda>dep. byName dep \<noteq> None) (Dependencies (rs ! (j - i))))) else 0))"
  using assms
proof (induction rs arbitrary: i d adj)
  case Nil
  then show ?case by auto
next
  case (Cons r rs)
  obtain d1 a1 where s1: "add_dependencies byName i (Dependencies r) (d, adj) = (d1, a1)"
    by (cases "add_dependencies byName i (Dependencies r) (d, adj)")
  from add_dependencies_result[OF Cons.prems(1) s1] have
    l1: "length d1 = length d" "length a1 = length adj"
    and a1: "\<forall>u<length adj. a1 ! u = adj ! u @ replicate (length (filter (\<lambda>dep. byName dep = Some u) (Dependencies r))) i"
    and di: "i < length d \<longrightarrow> d1 ! i = d ! i + int (length (filter (\<lambda>dep. byName dep \<noteq> None) (Dependencies r)))"
    and dj: "\<forall>j. j \<noteq> i \<longrightarrow> d1 ! j = d ! j"
    by simp_all
  have rec: "add_edges byName (i + 1) rs (d1, a1) = (d', adj')"
    using Cons.prems(2) s1 by simp
  have b: "\<forall>dep k. byName dep = Some k \<longrightarrow> k < length a1" using Cons.prems(1) l1 by simp
  have le: "i + 1 + length rs \<le> length d1" using Cons.prems(3) l1 by simp
  from Cons.IH[OF b rec le] have
    l: "length d' = length d1" "length adj' = length a1"
    and cnt: "\<forall>u<length a1. \<forall>j. count_list (adj' ! u) j = count_list (a1 ! u) j
          + (if i + 1 \<le> j \<and> j < i + 1 + length rs
             then length (filter (\<lambda>dep. byName dep = Some u) (Dependencies (rs ! (j - (i + 1))))) else 0)"
    and deg: "\<forall>j<length d1. d' ! j = d1 ! j
          + (if i + 1 \<le> j \<and> j < i + 1 + length rs
             then int (length (filter (\<lambda>dep. byName dep \<noteq> None) (Dependencies (rs ! (j - (i + 1)))))) else 0)"
    by simp_all
  have nth: "\<And>j. i + 1 \<le> j \<Longrightarrow> (r # rs) ! (j - i) = rs ! (j - (i + 1))"
  proof -
    fix j assume "i + 1 \<le> j"
    then obtain m where "j - i = Suc m" "j - (i + 1) = m" by (cases "j - i") auto
    then show "(r # rs) ! (j - i) = rs ! (j - (i + 1))" by simp
  qed
  have C: "\<forall>u<length adj. \<forall>j. count_list (adj' ! u) j = count_list (adj ! u) j
          + (if i \<le> j \<and> j < i + length (r # rs)
             then length (filter (\<lambda>dep. byName dep = Some u) (Dependencies ((r # rs) ! (j - i)))) else 0)"
  proof (intro allI impI)
    fix u j assume u: "u < length adj"
    have c1: "count_list (adj' ! u) j = count_list (a1 ! u) j
          + (if i + 1 \<le> j \<and> j < i + 1 + length rs
             then length (filter (\<lambda>dep. byName dep = Some u) (Dependencies (rs ! (j - (i + 1))))) else 0)"
      using cnt u l1 by simp
    have c2: "count_list (a1 ! u) j = count_list (adj ! u) j
          + (if j = i then length (filter (\<lambda>dep. byName dep = Some u) (Dependencies r)) else 0)"
      using a1 u by (simp add: count_list_replicate)
    show "count_list (adj' ! u) j = count_list (adj ! u) j
          + (if i \<le> j \<and> j < i + length (r # rs)
             then length (filter (\<lambda>dep. byName dep = Some u) (Dependencies ((r # rs) ! (j - i)))) else 0)"
    proof (cases "j = i")
      case True then show ?thesis using c1 c2 by simp
    next
      case False
      show ?thesis
      proof (cases "i + 1 \<le> j")
        case True
        then show ?thesis using c1 c2 False nth[OF True] by simp
      next
        case False
        then show ?thesis using c1 c2 \<open>j \<noteq> i\<close> by simp
      qed
    qed
  qed
  have D: "\<forall>j<length d. d' ! j = d ! j
          + (if i \<le> j \<and> j < i + length (r # rs)
             then int (length (filter (\<lambda>dep. byName dep \<noteq> None) (Dependencies ((r # rs) ! (j - i))))) else 0)"
  proof (intro allI impI)
    fix j assume j: "j < length d"
    have d1: "d' ! j = d1 ! j
          + (if i + 1 \<le> j \<and> j < i + 1 + length rs
             then int (length (filter (\<lambda>dep. byName dep \<noteq> None) (Dependencies (rs ! (j - (i + 1)))))) else 0)"
      using deg j l1 by simp
    show "d' ! j = d ! j
          + (if i \<le> j \<and> j < i + length (r # rs)
             then int (length (filter (\<lambda>dep. byName dep \<noteq> None) (Dependencies ((r # rs) ! (j - i))))) else 0)"
    proof (cases "j = i")
      case True then show ?thesis using d1 di j by simp
    next
      case False
      show ?thesis
      proof (cases "i + 1 \<le> j")
        case True
        then show ?thesis using d1 dj False nth[OF True] by simp
      next
        case False
        then show ?thesis using d1 dj \<open>j \<noteq> i\<close> by simp
      qed
    qed
  qed
  show ?case using l l1 C D by simp
qed

lemma sum_filter_Some:
  "\<forall>x\<in>set xs. \<forall>k. f x = Some k \<longrightarrow> k < (n::nat) \<Longrightarrow>
   (\<Sum>w\<in>{..<n}. length (filter (\<lambda>x. f x = Some w) xs)) = length (filter (\<lambda>x. f x \<noteq> None) xs)"
proof (induction xs)
  case Nil then show ?case by simp
next
  case (Cons x xs)
  have IH: "(\<Sum>w\<in>{..<n}. length (filter (\<lambda>x. f x = Some w) xs)) = length (filter (\<lambda>x. f x \<noteq> None) xs)"
    using Cons by simp
  show ?case
  proof (cases "f x")
    case None
    then show ?thesis using IH by simp
  next
    case (Some k)
    then have k: "k < n" using Cons.prems by simp
    have "(\<Sum>w\<in>{..<n}. length (filter (\<lambda>x. f x = Some w) (x # xs)))
        = (\<Sum>w\<in>{..<n}. (if w = k then 1 else 0) + length (filter (\<lambda>x. f x = Some w) xs))"
      using Some by (intro sum.cong) auto
    also have "\<dots> = (\<Sum>w\<in>{..<n}. if w = k then 1 else 0) + (\<Sum>w\<in>{..<n}. length (filter (\<lambda>x. f x = Some w) xs))"
      by (simp add: sum.distrib)
    also have "(\<Sum>w\<in>{..<n}. if w = k then 1 else 0) = (1::nat)"
      using k by simp
    finally show ?thesis using IH Some by simp
  qed
qed

text \<open>The graph that topologicalOrder builds, and the invariant at the start of the loop.\<close>

lemma built_graph:
  assumes g: "add_edges (index_by_name 0 rs Map.empty) 0 rs (replicate (length rs) 0, replicate (length rs) []) = (d, adj)"
  shows "length adj = length rs"
    and "kahn_inv adj (filter (\<lambda>i. d ! i = 0) [0..<length rs]) d []"
    and "\<And>u j. u < length rs \<Longrightarrow> j < length rs \<Longrightarrow>
           j \<in> set (adj ! u) \<longleftrightarrow> (\<exists>dep\<in>set (Dependencies (rs ! j)). index_by_name 0 rs Map.empty dep = Some u)"
proof -
  define n where "n = length rs"
  define byName where "byName = index_by_name 0 rs Map.empty"
  have bounded: "\<forall>dep k. byName dep = Some k \<longrightarrow> k < n"
    using index_by_name_Some[of 0 rs Map.empty] unfolding byName_def n_def by fastforce
  have b': "\<forall>dep k. byName dep = Some k \<longrightarrow> k < length (replicate n ([]::nat list))"
    using bounded by simp
  have g': "add_edges byName 0 rs (replicate n 0, replicate n []) = (d, adj)"
    using g unfolding byName_def n_def .
  have le: "0 + length rs \<le> length (replicate n (0::int))" by (simp add: n_def)
  from add_edges_result[OF b' g' le] have
    ld: "length d = n" and la: "length adj = n"
    and cnt: "\<forall>u<n. \<forall>j. count_list (adj ! u) j =
        (if j < n then length (filter (\<lambda>dep. byName dep = Some u) (Dependencies (rs ! j))) else 0)"
    and deg: "\<forall>j<n. d ! j = int (length (filter (\<lambda>dep. byName dep \<noteq> None) (Dependencies (rs ! j))))"
    by (simp_all add: n_def)
  show "length adj = length rs" using la by (simp add: n_def)
  have rng: "\<forall>u<n. \<forall>v\<in>set (adj ! u). v < n"
  proof (intro allI impI ballI)
    fix u v assume "u < n" "v \<in> set (adj ! u)"
    then have "count_list (adj ! u) v \<noteq> 0" by (simp add: count_list_0_iff)
    then show "v < n" using cnt \<open>u < n\<close> by (auto split: if_splits)
  qed
  have deg': "\<forall>j<n. d ! j = int (\<Sum>w\<in>{..<n} - set []. count_list (adj ! w) j)"
  proof (intro allI impI)
    fix j assume j: "j < n"
    have "(\<Sum>w\<in>{..<n}. count_list (adj ! w) j)
        = (\<Sum>w\<in>{..<n}. length (filter (\<lambda>dep. byName dep = Some w) (Dependencies (rs ! j))))"
      using cnt j by (intro sum.cong) auto
    also have "\<dots> = length (filter (\<lambda>dep. byName dep \<noteq> None) (Dependencies (rs ! j)))"
      using bounded by (intro sum_filter_Some) blast
    finally show "d ! j = int (\<Sum>w\<in>{..<n} - set []. count_list (adj ! w) j)"
      using deg j by simp
  qed
  have "kahn_inv adj (filter (\<lambda>i. d ! i = 0) [0..<n]) d []"
    unfolding kahn_inv_def la using ld rng deg' by auto
  then show "kahn_inv adj (filter (\<lambda>i. d ! i = 0) [0..<length rs]) d []" by (simp add: n_def)
  fix u j assume u: "u < length rs" and j: "j < length rs"
  have "j \<in> set (adj ! u) \<longleftrightarrow> count_list (adj ! u) j \<noteq> 0" by (simp add: count_list_0_iff)
  also have "\<dots> \<longleftrightarrow> filter (\<lambda>dep. byName dep = Some u) (Dependencies (rs ! j)) \<noteq> []"
    using cnt u j by (simp add: n_def)
  also have "\<dots> \<longleftrightarrow> (\<exists>dep\<in>set (Dependencies (rs ! j)). byName dep = Some u)"
    by (simp add: filter_empty_conv)
  finally show "j \<in> set (adj ! u) \<longleftrightarrow> (\<exists>dep\<in>set (Dependencies (rs ! j)). index_by_name 0 rs Map.empty dep = Some u)"
    by (simp add: byName_def)
qed

lemma precedesI: "xs = pre @ b # post \<Longrightarrow> a \<in> set pre \<Longrightarrow> distinct xs \<Longrightarrow> precedes xs a b"
  by (auto simp: precedes_def takeWhile_append)

lemma precedes_length:
  assumes "precedes xs a b"
  shows "length (takeWhile (\<lambda>x. x \<noteq> a) xs) < length (takeWhile (\<lambda>x. x \<noteq> b) xs)"
proof -
  from assms have b: "b \<in> set xs" and a: "a \<in> set (takeWhile (\<lambda>x. x \<noteq> b) xs)"
    by (simp_all add: precedes_def)
  obtain pre post where xs: "xs = pre @ b # post" and nb: "b \<notin> set pre"
    using split_list_first[OF b] by blast
  have tb: "takeWhile (\<lambda>x. x \<noteq> b) xs = pre" using xs nb by (simp add: takeWhile_append)
  then have "a \<in> set pre" using a by simp
  then obtain p1 p2 where pre: "pre = p1 @ a # p2" and na: "a \<notin> set p1"
    using split_list_first by fast
  have "takeWhile (\<lambda>x. x \<noteq> a) xs = p1" using xs pre na by (simp add: takeWhile_append)
  then show ?thesis using tb pre by simp
qed

lemma finite_adj_edges: "finite (adj_edges adj)"
proof -
  have "adj_edges adj \<subseteq> {..<length adj} \<times> {..<length adj}" by (auto simp: adj_edges_def)
  then show ?thesis by (rule finite_subset) simp
qed

lemma kahn_final_complete:
  assumes inv: "kahn_inv adj [] d ord" and ac: "acyclic (adj_edges adj)"
  shows "set ord = {..<length adj}"
proof (rule ccontr)
  assume ne: "set ord \<noteq> {..<length adj}"
  define U where "U = {..<length adj} - set ord"
  from inv have sub: "\<forall>x\<in>set ord. x < length adj"
    and deg: "\<forall>j<length adj. d ! j = int (\<Sum>w\<in>U. count_list (adj ! w) j)"
    and zero: "\<forall>j<length adj. j \<in> set ord \<longleftrightarrow> d ! j = 0"
    unfolding kahn_inv_def U_def append_Nil2 by blast+
  from ne sub obtain x where x: "x \<in> U" unfolding U_def by blast
  have "wf (adj_edges adj)" using finite_adj_edges ac by (rule finite_acyclic_wf)
  from wfE_min[OF this x] obtain z where z: "z \<in> U" and min: "\<And>y. (y, z) \<in> adj_edges adj \<Longrightarrow> y \<notin> U"
    by blast
  have zn: "z < length adj" and "z \<notin> set ord" using z by (simp_all add: U_def)
  then have "d ! z \<noteq> 0" using zero by blast
  with deg[rule_format, OF zn] have "(\<Sum>w\<in>U. count_list (adj ! w) z) \<noteq> 0"
    by (metis of_nat_0)
  then obtain w where w: "w \<in> U" "count_list (adj ! w) z \<noteq> 0"
    by (meson sum.neutral)
  then have "z \<in> set (adj ! w)" by (simp add: count_list_0_iff)
  then have "(w, z) \<in> adj_edges adj" using w(1) zn by (simp add: adj_edges_def U_def)
  then show False using min w(1) by blast
qed

lemma kahn_final_precedes:
  assumes inv: "kahn_inv adj [] d ord" and "(u, j) \<in> adj_edges adj" and j: "j \<in> set ord"
  shows "precedes ord u j"
proof -
  from inv have dist: "distinct ord"
    and prec: "\<forall>pre j post. ord = pre @ j # post \<longrightarrow> (\<forall>w<length adj. j \<in> set (adj ! w) \<longrightarrow> w \<in> set pre)"
    unfolding kahn_inv_def append_Nil2 by blast+
  obtain pre post where o: "ord = pre @ j # post" using split_list[OF j] by blast
  have "u \<in> set pre" using prec o assms(2) by (auto simp: adj_edges_def)
  with o show ?thesis using dist by (rule precedesI)
qed

lemma kahn_final_sound:
  assumes inv: "kahn_inv adj [] d ord" and all: "set ord = {..<length adj}"
  shows "acyclic (adj_edges adj)"
proof -
  have "adj_edges adj \<subseteq> measure (\<lambda>x. length (takeWhile (\<lambda>y. y \<noteq> x) ord))"
  proof
    fix e assume e: "e \<in> adj_edges adj"
    obtain u j where uj: "e = (u, j)" by (cases e)
    then have "j \<in> set ord" using e all by (simp add: adj_edges_def)
    from kahn_final_precedes[OF inv e[unfolded uj] this]
    show "e \<in> measure (\<lambda>x. length (takeWhile (\<lambda>y. y \<noteq> x) ord))"
      using uj by (simp add: precedes_length)
  qed
  moreover have "acyclic (measure (\<lambda>x. length (takeWhile (\<lambda>y. y \<noteq> x) ord)))"
    by (rule wf_acyclic) simp
  ultimately show ?thesis by (rule acyclic_subset[rotated])
qed

lemma kahn_final_length:
  assumes inv: "kahn_inv adj [] d ord"
  shows "length ord = length adj \<longleftrightarrow> set ord = {..<length adj}"
proof -
  from inv have dist: "distinct ord" and sub: "set ord \<subseteq> {..<length adj}"
    unfolding kahn_inv_def append_Nil2 by blast+
  have card: "card (set ord) = length ord" using dist by (rule distinct_card)
  show ?thesis
  proof
    assume "length ord = length adj"
    then have "card (set ord) = card {..<length adj}" using card by simp
    then show "set ord = {..<length adj}" using sub by (intro card_subset_eq) simp_all
  next
    assume "set ord = {..<length adj}"
    then show "length ord = length adj" using card by simp
  qed
qed

text \<open>What topologicalOrder computes, in terms of the graph it builds.\<close>

lemma topologicalOrder_graph:
  obtains d adj ord d' where
    "add_edges (index_by_name 0 rs Map.empty) 0 rs (replicate (length rs) 0, replicate (length rs) []) = (d, adj)"
    and "length adj = length rs"
    and "kahn_inv adj [] d' ord"
    and "topologicalOrder rs = (if length ord \<noteq> length rs then Inl CycleInDependencies else Inr ord)"
proof -
  obtain d adj where g: "add_edges (index_by_name 0 rs Map.empty) 0 rs (replicate (length rs) 0, replicate (length rs) []) = (d, adj)"
    by (cases "add_edges (index_by_name 0 rs Map.empty) 0 rs (replicate (length rs) 0, replicate (length rs) [])")
  from drain_inv[OF built_graph(2)[OF g]] obtain ord d' where
    dr: "drain adj (filter (\<lambda>i. d ! i = 0) [0..<length rs]) d [] = Some ord" and inv: "kahn_inv adj [] d' ord"
    by blast
  have "topologicalOrder rs = (if length ord \<noteq> length rs then Inl CycleInDependencies else Inr ord)"
    using g dr by (simp add: topologicalOrder_def Let_def)
  then show ?thesis using that g built_graph(1)[OF g] inv by blast
qed

lemma topologicalOrder_in_range:
  assumes "topologicalOrder rs = Inr order"
  shows "distinct order \<and> set order = {..<length rs}"
proof -
  obtain d :: "int list" and adj ord d' where
    "add_edges (index_by_name 0 rs Map.empty) 0 rs (replicate (length rs) 0, replicate (length rs) []) = (d, adj)"
    and la: "length adj = length rs" and inv: "kahn_inv adj [] d' ord"
    and t: "topologicalOrder rs = (if length ord \<noteq> length rs then Inl CycleInDependencies else Inr ord)"
    by (rule topologicalOrder_graph)
  from t assms have "ord = order" "length ord = length rs" by (auto split: if_splits)
  moreover have "distinct order" using inv \<open>ord = order\<close> unfolding kahn_inv_def append_Nil2 by blast
  ultimately show ?thesis using kahn_final_length[OF inv] la by simp
qed

lemma adj_edges_dep_edges:
  assumes g: "add_edges (index_by_name 0 rs Map.empty) 0 rs (replicate (length rs) 0, replicate (length rs) []) = (d, adj)"
    and dist: "distinct (map EffectiveName rs)"
  shows "adj_edges adj = dep_edges rs"
proof -
  have la: "length adj = length rs" by (rule built_graph(1)[OF g])
  have "\<And>u j. u < length rs \<Longrightarrow> j < length rs \<Longrightarrow>
      j \<in> set (adj ! u) \<longleftrightarrow> EffectiveName (rs ! u) \<in> set (Dependencies (rs ! j))"
  proof -
    fix u j assume u: "u < length rs" and j: "j < length rs"
    have byu: "index_by_name 0 rs Map.empty (EffectiveName (rs ! u)) = Some u"
      using index_by_name_distinct[OF dist u, of 0 Map.empty] by simp
    have "(\<exists>dep\<in>set (Dependencies (rs ! j)). index_by_name 0 rs Map.empty dep = Some u)
        \<longleftrightarrow> EffectiveName (rs ! u) \<in> set (Dependencies (rs ! j))"
    proof
      assume "\<exists>dep\<in>set (Dependencies (rs ! j)). index_by_name 0 rs Map.empty dep = Some u"
      then obtain dep where dep: "dep \<in> set (Dependencies (rs ! j))" "index_by_name 0 rs Map.empty dep = Some u"
        by blast
      from index_by_name_Some[OF dep(2)] have "EffectiveName (rs ! u) = dep" by simp
      then show "EffectiveName (rs ! u) \<in> set (Dependencies (rs ! j))" using dep(1) by simp
    next
      assume "EffectiveName (rs ! u) \<in> set (Dependencies (rs ! j))"
      then show "\<exists>dep\<in>set (Dependencies (rs ! j)). index_by_name 0 rs Map.empty dep = Some u"
        using byu by blast
    qed
    then show "j \<in> set (adj ! u) \<longleftrightarrow> EffectiveName (rs ! u) \<in> set (Dependencies (rs ! j))"
      using built_graph(3)[OF g u j] by simp
  qed
  then show ?thesis unfolding adj_edges_def dep_edges_def la by auto
qed

lemma topologicalOrder_correct:
  assumes dist: "distinct (map EffectiveName rs)"
  shows "(\<not> acyclic (dep_edges rs) \<longrightarrow> topologicalOrder rs = Inl CycleInDependencies)
    \<and> (acyclic (dep_edges rs) \<longrightarrow>
         (\<exists>order. topologicalOrder rs = Inr order \<and> distinct order \<and> set order = {..<length rs}
            \<and> (\<forall>i j. (i, j) \<in> dep_edges rs \<longrightarrow> precedes order i j)))"
proof -
  obtain d adj ord d' where
    g: "add_edges (index_by_name 0 rs Map.empty) 0 rs (replicate (length rs) 0, replicate (length rs) []) = (d, adj)"
    and la: "length adj = length rs" and inv: "kahn_inv adj [] d' ord"
    and t: "topologicalOrder rs = (if length ord \<noteq> length rs then Inl CycleInDependencies else Inr ord)"
    by (rule topologicalOrder_graph)
  have E: "adj_edges adj = dep_edges rs" by (rule adj_edges_dep_edges[OF g dist])
  show ?thesis
  proof (intro conjI impI)
    assume cyc: "\<not> acyclic (dep_edges rs)"
    have "length ord \<noteq> length rs"
    proof
      assume "length ord = length rs"
      then have "set ord = {..<length adj}" using kahn_final_length[OF inv] la by simp
      from kahn_final_sound[OF inv this] show False using cyc E by simp
    qed
    then show "topologicalOrder rs = Inl CycleInDependencies" using t by simp
  next
    assume ac: "acyclic (dep_edges rs)"
    then have all: "set ord = {..<length adj}" using kahn_final_complete[OF inv] E by simp
    then have len: "length ord = length rs" using kahn_final_length[OF inv] la by simp
    have "distinct ord" using inv unfolding kahn_inv_def append_Nil2 by blast
    moreover have "\<forall>i j. (i, j) \<in> dep_edges rs \<longrightarrow> precedes ord i j"
    proof (intro allI impI)
      fix i j assume e: "(i, j) \<in> dep_edges rs"
      then have "j \<in> set ord" using all la by (simp add: dep_edges_def)
      then show "precedes ord i j" using kahn_final_precedes[OF inv] e E by simp
    qed
    ultimately show "\<exists>order. topologicalOrder rs = Inr order \<and> distinct order \<and> set order = {..<length rs}
            \<and> (\<forall>i j. (i, j) \<in> dep_edges rs \<longrightarrow> precedes order i j)"
      using t len all la by simp
  qed
qed

section \<open>Properties of the apply engine\<close>

subsection \<open>One resource\<close>

lemma apply_resource_skip:
  assumes "ResolveTemplates env state (Data r) = Inr resolved"
    and "map_of state (Key r) = Some prev"
    and "DataDigest prev = dataDigestWithRevision env resolved (revisionForDigest (Revision r))"
  shows "apply_resource env a t r state tr = (Proceed, state, tr)"
  using assms by (simp add: apply_resource_def Let_def)

lemma apply_resource_settled:
  "settled env state r \<Longrightarrow> apply_resource env a t r state tr = (Proceed, state, tr)"
  by (auto simp: settled_def split: sum.splits option.splits intro: apply_resource_skip)

lemma apply_resource_migrate:
  assumes "ResolveTemplates env state (Data r) = Inr resolved"
    and "map_of state (Key r) = None"
    and "FindByNsPath env state (NamespaceOrDefault r) (Path r) = Some (oldKey, prev)"
    and "DataDigest prev = dataDigestWithRevision env resolved (revisionForDigest (Revision r))"
  shows "apply_resource env a t r state tr =
      (if fst (save env (migrated r oldKey prev state) tr)
       then failure (IgnoreFailures r) (ResourceError (Namespace r) (Path r) SaveStateMigrate)
       else Proceed,
       migrated r oldKey prev state, snd (save env (migrated r oldKey prev state) tr))"
  using assms by (simp add: apply_resource_def Let_def migrated_def split: prod.splits)

lemma requests_append: "requests (xs @ ys) = requests xs @ requests ys"
  by (simp add: requests_def)

lemma requests_save: "requests (snd (save env s tr)) = requests tr"
  by (simp add: save_def requests_def split: option.splits)

lemma create_pass_settled:
  "\<forall>r\<in>set rs. settled env state r \<Longrightarrow> create_pass env a t rs state tr = (None, state, tr)"
  by (induction rs) (simp_all add: apply_resource_settled)

lemma range_map_keys: "(k, v) \<in> set (range_map env m) \<Longrightarrow> map_of m k = Some v"
  by (auto simp: range_map_def map_filter_def)

lemma deleteOrderFromState_Nil: "deleteOrderFromState env state [] = []"
proof -
  have "range_map env ([] :: (string \<times> int) list) = []"
    by (simp add: range_map_def map_filter_def)
  then show ?thesis by (simp add: deleteOrderFromState_def)
qed

text \<open>A run against a state in which every resource is settled and no key is stale.\<close>

lemma Apply_settled:
  assumes s: "\<forall>r\<in>set rs. settled env state r" and k: "fst ` set state \<subseteq> Key ` set rs"
  shows "snd (Apply env rs vaultAddr token state) = (state, [])"
    and "TrimSuffixSlash vaultAddr \<noteq> [] \<Longrightarrow> token \<noteq> [] \<Longrightarrow> topologicalOrder rs = Inr order \<Longrightarrow>
         Apply env rs vaultAddr token state = (None, state, [])"
proof -
  have del: "filter (\<lambda>key. key \<notin> Key ` set rs) (map fst (range_map env state)) = []"
  proof -
    have "\<forall>kv\<in>set (range_map env state). fst kv \<in> Key ` set rs"
    proof
      fix kv assume "kv \<in> set (range_map env state)"
      then have "map_of state (fst kv) = Some (snd kv)" using range_map_keys[of "fst kv" "snd kv"] by simp
      then have "fst kv \<in> fst ` set state" by (metis map_of_SomeD fst_conv image_eqI)
      then show "fst kv \<in> Key ` set rs" using k by blast
    qed
    then show ?thesis by (auto simp: filter_empty_conv)
  qed
  have run: "\<And>order. topologicalOrder rs = Inr order \<Longrightarrow>
      create_pass env (TrimSuffixSlash vaultAddr) token (map (\<lambda>idx. rs ! idx) order) state [] = (None, state, [])"
  proof -
    fix order assume "topologicalOrder rs = Inr order"
    then have "set order = {..<length rs}" by (simp add: topologicalOrder_in_range)
    then have "\<forall>r\<in>set (map (\<lambda>idx. rs ! idx) order). settled env state r" using s by auto
    then show "create_pass env (TrimSuffixSlash vaultAddr) token (map (\<lambda>idx. rs ! idx) order) state [] = (None, state, [])"
      by (rule create_pass_settled)
  qed
  show "snd (Apply env rs vaultAddr token state) = (state, [])"
    by (cases "topologicalOrder rs") (simp_all add: Apply_def Let_def run del deleteOrderFromState_Nil)
  show "TrimSuffixSlash vaultAddr \<noteq> [] \<Longrightarrow> token \<noteq> [] \<Longrightarrow> topologicalOrder rs = Inr order \<Longrightarrow>
         Apply env rs vaultAddr token state = (None, state, [])"
    by (simp add: Apply_def Let_def run del deleteOrderFromState_Nil)
qed

subsection \<open>Digest\<close>

lemma length_EncodeToString: "length (EncodeToString b) = 2 * length b"
  by (induction b) (simp_all add: EncodeToString_def)

lemma digest_empty:
  "json_Marshal env (normalizeValue v) = None \<Longrightarrow> dataDigestWithRevision env v n = []"
  by (simp add: dataDigestWithRevision_def marshal_envelope_def)

lemma empty_digest_skips:
  assumes res: "ResolveTemplates env state (Data r) = Inr resolved"
    and none: "json_Marshal env (normalizeValue resolved) = None"
    and dp: "DataDigest prev = []"
  shows "map_of state (Key r) = Some prev \<Longrightarrow>
           apply_resource env vaultAddr token r state tr = (Proceed, state, tr)"
    and "map_of state (Key r) = None \<Longrightarrow>
         FindByNsPath env state (NamespaceOrDefault r) (Path r) = Some (oldKey, prev) \<Longrightarrow>
           fst (snd (apply_resource env vaultAddr token r state tr)) = migrated r oldKey prev state
           \<and> requests (snd (snd (apply_resource env vaultAddr token r state tr))) = requests tr"
proof -
  have dg: "DataDigest prev = dataDigestWithRevision env resolved (revisionForDigest (Revision r))"
    using digest_empty[OF none] dp by simp
  {
    assume "map_of state (Key r) = Some prev"
    from apply_resource_skip[OF res this dg]
    show "apply_resource env vaultAddr token r state tr = (Proceed, state, tr)" .
  }
  {
    assume "map_of state (Key r) = None"
      and "FindByNsPath env state (NamespaceOrDefault r) (Path r) = Some (oldKey, prev)"
    from apply_resource_migrate[OF res this dg, of vaultAddr token tr]
    show "fst (snd (apply_resource env vaultAddr token r state tr)) = migrated r oldKey prev state
           \<and> requests (snd (snd (apply_resource env vaultAddr token r state tr))) = requests tr"
      by (simp add: requests_save)
  }
qed

lemma show_nat_digits: "list_all is_digit (show_nat n)"
proof (induction n rule: show_nat.induct)
  case (1 n)
  have d: "\<And>k :: nat. k < 10 \<Longrightarrow> is_digit (char_of (48 + k))"
    by (simp add: is_digit_def take_bit_eq_mod)
  show ?case
  proof (cases "n < 10")
    case True
    then show ?thesis using d[of n] by (subst show_nat.simps) simp
  next
    case False
    then show ?thesis using 1 d[of "n mod 10"] by (subst show_nat.simps) simp
  qed
qed

lemma digits_value_snoc: "digits_value (ds @ [c]) = 10 * digits_value ds + (of_char c - 48)"
  by (simp add: digits_value_def)

lemma digits_value_show_nat: "digits_value (show_nat n) = n"
proof (induction n rule: show_nat.induct)
  case (1 n)
  have d: "\<And>k :: nat. k < 10 \<Longrightarrow> (of_char (char_of (48 + k)) :: nat) - 48 = k"
    by (simp add: take_bit_eq_mod)
  show ?case
  proof (cases "n < 10")
    case True
    then show ?thesis using d[of n] by (subst show_nat.simps) (simp add: digits_value_def)
  next
    case False
    then show ?thesis using 1 d[of "n mod 10"]
      by (subst show_nat.simps) (simp add: digits_value_snoc del: show_nat.simps)
  qed
qed

lemma show_nat_inj: "show_nat m = show_nat n \<Longrightarrow> m = n"
  by (metis digits_value_show_nat)

text \<open>The digits at the end of a string that has a colon before them.\<close>

lemma digits_suffix:
  assumes "list_all is_digit s" and "list_all is_digit s'"
    and "x @ CHR '':'' # s = x' @ CHR '':'' # s'"
  shows "x = x' \<and> s = s'"
proof -
  have nd: "\<not> is_digit CHR '':''" by (simp add: is_digit_def)
  have "\<And>x s. list_all is_digit s \<Longrightarrow> takeWhile is_digit (rev (x @ CHR '':'' # s)) = rev s"
  proof -
    fix x s assume "list_all is_digit s"
    then have "\<And>c. c \<in> set (rev s) \<Longrightarrow> is_digit c" by (simp add: list_all_iff)
    from takeWhile_append2[of "rev s" is_digit "CHR '':'' # rev x", OF this]
    show "takeWhile is_digit (rev (x @ CHR '':'' # s)) = rev s" using nd by simp
  qed
  then have "rev s = rev s'" using assms by metis
  then have "s = s'" by simp
  then show ?thesis using assms(3) by simp
qed

lemma unhex_hex_digit: "n < 16 \<Longrightarrow> unhex (hex_digit n) = n"
proof -
  assume "n < 16"
  then consider "n = 0" | "n = 1" | "n = 2" | "n = 3" | "n = 4" | "n = 5" | "n = 6" | "n = 7"
    | "n = 8" | "n = 9" | "n = 10" | "n = 11" | "n = 12" | "n = 13" | "n = 14" | "n = 15"
    by atomize_elim arith
  then show ?thesis
    by cases (simp_all add: unhex_def hex_digit_def is_digit_def)
qed

lemma hex_digit_in: "n < 16 \<Longrightarrow> hex_digit n \<in> set ''0123456789abcdef''"
  unfolding hex_digit_def by (rule nth_mem) simp

lemma EncodeToString_inj: "EncodeToString b = EncodeToString b' \<Longrightarrow> b = b'"
proof (induction b arbitrary: b')
  case Nil
  then show ?case by (cases b') (simp_all add: EncodeToString_def)
next
  case (Cons c b)
  then obtain c' b'' where b': "b' = c' # b''" by (cases b') (simp_all add: EncodeToString_def)
  from Cons.prems b' have h: "hex_digit (of_char c div 16) = hex_digit (of_char c' div 16)"
    and l: "hex_digit (of_char c mod 16) = hex_digit (of_char c' mod 16)"
    and r: "EncodeToString b = EncodeToString b''"
    by (simp_all add: EncodeToString_def)
  have lt: "\<And>c :: char. (of_char c :: nat) div 16 < 16"
  proof -
    fix c :: char
    show "(of_char c :: nat) div 16 < 16" by (rule less_mult_imp_div_less) simp
  qed
  have "(of_char c :: nat) div 16 = of_char c' div 16"
    using arg_cong[OF h, of unhex] by (simp add: unhex_hex_digit lt)
  moreover have "(of_char c :: nat) mod 16 = of_char c' mod 16"
    using arg_cong[OF l, of unhex] by (simp add: unhex_hex_digit)
  ultimately have "(of_char c :: nat) = of_char c'" by (metis div_mult_mod_eq)
  then have "c = c'" by simp
  then show ?case using Cons.IH[OF r] b' by simp
qed

lemma EncodeToString_hex: "set (EncodeToString b) \<subseteq> set ''0123456789abcdef''"
proof -
  have lt: "\<And>c :: char. (of_char c :: nat) div 16 < 16"
  proof -
    fix c :: char
    show "(of_char c :: nat) div 16 < 16" by (rule less_mult_imp_div_less) simp
  qed
  have "\<And>c :: char. hex_digit (of_char c div 16) \<in> set ''0123456789abcdef''
      \<and> hex_digit (of_char c mod 16) \<in> set ''0123456789abcdef''"
    using hex_digit_in lt by simp
  then show ?thesis unfolding EncodeToString_def by (induction b) auto
qed

lemma envelope_inj:
  assumes "p @ d @ c @ CHR '':'' # show_nat n @ e = p @ d' @ c @ CHR '':'' # show_nat n' @ e"
  shows "d = d' \<and> n = n'"
proof -
  from assms have "(d @ c) @ CHR '':'' # show_nat n = (d' @ c) @ CHR '':'' # show_nat n'"
    by (simp del: show_nat.simps)
  from digits_suffix[OF show_nat_digits show_nat_digits this]
  show ?thesis using show_nat_inj by auto
qed

lemma digest_Some:
  assumes "json_Marshal env (normalizeValue data) = Some d"
  shows "dataDigestWithRevision env data revision =
     EncodeToString (Sum256 env ([CHR ''{'', CHR 0x22] @ ''data'' @ [CHR 0x22, CHR '':''] @ d
                @ [CHR '','', CHR 0x22] @ ''revision'' @ [CHR 0x22, CHR '':''] @ show_nat revision
                @ [CHR ''}'']))"
  using assms by (simp add: dataDigestWithRevision_def marshal_envelope_def del: show_nat.simps)

lemma EncodeToString_eq:
  "EncodeToString b = concat (map (\<lambda>c. [''0123456789abcdef'' ! (of_char c div 16),
                              ''0123456789abcdef'' ! (of_char c mod 16)]) b)"
  unfolding EncodeToString_def hex_digit_def ..

lemma envelope_eq_iff:
  "([CHR ''{'', CHR 0x22] @ ''data'' @ [CHR 0x22, CHR '':''] @ d
                @ [CHR '','', CHR 0x22] @ ''revision'' @ [CHR 0x22, CHR '':''] @ show_nat n
                @ [CHR ''}'']) = ([CHR ''{'', CHR 0x22] @ ''data'' @ [CHR 0x22, CHR '':''] @ d'
                @ [CHR '','', CHR 0x22] @ ''revision'' @ [CHR 0x22, CHR '':''] @ show_nat n'
                @ [CHR ''}'']) \<longleftrightarrow> d = d' \<and> n = n'"
proof
  assume "([CHR ''{'', CHR 0x22] @ ''data'' @ [CHR 0x22, CHR '':''] @ d
                @ [CHR '','', CHR 0x22] @ ''revision'' @ [CHR 0x22, CHR '':''] @ show_nat n
                @ [CHR ''}'']) = ([CHR ''{'', CHR 0x22] @ ''data'' @ [CHR 0x22, CHR '':''] @ d'
                @ [CHR '','', CHR 0x22] @ ''revision'' @ [CHR 0x22, CHR '':''] @ show_nat n'
                @ [CHR ''}''])"
  then have "([CHR ''{'', CHR 0x22] @ ''data'' @ [CHR 0x22, CHR '':'']) @ d
      @ ([CHR '','', CHR 0x22] @ ''revision'' @ [CHR 0x22]) @ CHR '':'' # show_nat n @ [CHR ''}'']
    = ([CHR ''{'', CHR 0x22] @ ''data'' @ [CHR 0x22, CHR '':'']) @ d'
      @ ([CHR '','', CHR 0x22] @ ''revision'' @ [CHR 0x22]) @ CHR '':'' # show_nat n' @ [CHR ''}'']"
    by (simp del: show_nat.simps)
  then show "d = d' \<and> n = n'" by (rule envelope_inj)
next
  assume "d = d' \<and> n = n'"
  then show "([CHR ''{'', CHR 0x22] @ ''data'' @ [CHR 0x22, CHR '':''] @ d
                @ [CHR '','', CHR 0x22] @ ''revision'' @ [CHR 0x22, CHR '':''] @ show_nat n
                @ [CHR ''}'']) = ([CHR ''{'', CHR 0x22] @ ''data'' @ [CHR 0x22, CHR '':''] @ d'
                @ [CHR '','', CHR 0x22] @ ''revision'' @ [CHR 0x22, CHR '':''] @ show_nat n'
                @ [CHR ''}''])" by (simp del: show_nat.simps)
qed

lemma digest_hex:
  assumes "json_Marshal env (normalizeValue data) = Some d"
  shows "dataDigestWithRevision env data revision = concat (map (\<lambda>c. [''0123456789abcdef'' ! (of_char c div 16),
                              ''0123456789abcdef'' ! (of_char c mod 16)]) (Sum256 env ([CHR ''{'', CHR 0x22] @ ''data'' @ [CHR 0x22, CHR '':''] @ d
                @ [CHR '','', CHR 0x22] @ ''revision'' @ [CHR 0x22, CHR '':''] @ show_nat revision
                @ [CHR ''}''])))"
  unfolding digest_Some[OF assms] EncodeToString_eq ..

lemma EncodeToString_eq_iff: "EncodeToString b = EncodeToString b' \<longleftrightarrow> b = b'"
  using EncodeToString_inj by blast

lemma digest_eq_iff:
  assumes "json_Marshal env (normalizeValue data) = Some d"
    and "json_Marshal env (normalizeValue data') = Some d'"
  shows "dataDigestWithRevision env data revision = dataDigestWithRevision env data' revision'
     \<longleftrightarrow> Sum256 env ([CHR ''{'', CHR 0x22] @ ''data'' @ [CHR 0x22, CHR '':''] @ d
                @ [CHR '','', CHR 0x22] @ ''revision'' @ [CHR 0x22, CHR '':''] @ show_nat revision
                @ [CHR ''}'']) = Sum256 env ([CHR ''{'', CHR 0x22] @ ''data'' @ [CHR 0x22, CHR '':''] @ d'
                @ [CHR '','', CHR 0x22] @ ''revision'' @ [CHR 0x22, CHR '':''] @ show_nat revision'
                @ [CHR ''}''])"
  unfolding digest_Some[OF assms(1)] digest_Some[OF assms(2)] by (rule EncodeToString_eq_iff)

lemma digest_length:
  assumes "json_Marshal env (normalizeValue data) = Some d"
  shows "length (dataDigestWithRevision env data revision) = 2 * length (Sum256 env ([CHR ''{'', CHR 0x22] @ ''data'' @ [CHR 0x22, CHR '':''] @ d
                @ [CHR '','', CHR 0x22] @ ''revision'' @ [CHR 0x22, CHR '':''] @ show_nat revision
                @ [CHR ''}'']))"
  unfolding digest_Some[OF assms] by (rule length_EncodeToString)

lemma digest_chars: "set (dataDigestWithRevision env data revision) \<subseteq> set ''0123456789abcdef''"
proof (cases "json_Marshal env (normalizeValue data)")
  case None
  then have "dataDigestWithRevision env data revision = []" by (rule digest_empty)
  then show ?thesis by (simp only: set_simps empty_subsetI)
next
  case (Some d)
  show ?thesis unfolding digest_Some[OF Some] by (rule EncodeToString_hex)
qed

text \<open>
  Claim C10.  \<^verbatim>\<open>dataDigestWithRevision\<close> returns a string and nothing else.  When the
  normalized data encodes as \<open>d\<close>, the result is the hexadecimal notation, two lower-case
  digits for each byte, of the SHA-256 sum of the envelope
  \<^verbatim>\<open>{"data":d,"revision":n}\<close> with \<open>n\<close> the decimal notation of the revision: twice as
  many characters as the sum has bytes, 64 for the 32 bytes of SHA-256.  Two digests of
  data that encode agree exactly when the sums of their envelopes agree, and two
  envelopes agree exactly when the encoded data and the revisions agree, so that the
  revision takes part in the digest.  When the normalized data does not encode, the
  result is the empty string.  The result consists of hexadecimal digits in both cases.
  Hence two data values that do not encode have the same digest whatever their revisions,
  and a state entry with the empty digest satisfies the no-op test (the resource is
  passed over, state and trace unchanged) and the digest comparison of the key migration
  (the entry is moved, no request is sent) for a resource whose resolved data does not
  encode.
\<close>

theorem dataDigestWithRevision_total:
  "(let hex = (\<lambda>b. concat (map (\<lambda>c. [''0123456789abcdef'' ! (of_char c div 16),
                                      ''0123456789abcdef'' ! (of_char c mod 16)]) b));
        envelope = (\<lambda>d n. [CHR ''{'', CHR 0x22] @ ''data'' @ [CHR 0x22, CHR '':''] @ d
                      @ [CHR '','', CHR 0x22] @ ''revision'' @ [CHR 0x22, CHR '':''] @ show_nat n
                      @ [CHR ''}''])
    in (case json_Marshal env (normalizeValue data) of
          None \<Rightarrow> dataDigestWithRevision env data revision = []
        | Some d \<Rightarrow>
            dataDigestWithRevision env data revision = hex (Sum256 env (envelope d revision))
            \<and> length (dataDigestWithRevision env data revision)
                = 2 * length (Sum256 env (envelope d revision))
            \<and> ((\<forall>b. length (Sum256 env b) = 32)
                 \<longrightarrow> length (dataDigestWithRevision env data revision) = 64)
            \<and> (\<forall>data' d' revision'. json_Marshal env (normalizeValue data') = Some d' \<longrightarrow>
                  (dataDigestWithRevision env data revision = dataDigestWithRevision env data' revision'
                     \<longleftrightarrow> Sum256 env (envelope d revision) = Sum256 env (envelope d' revision'))
                  \<and> (envelope d revision = envelope d' revision' \<longleftrightarrow> d = d' \<and> revision = revision')))
       \<and> set (dataDigestWithRevision env data revision) \<subseteq> set ''0123456789abcdef'')
   \<and> (json_Marshal env (normalizeValue data) = None \<and> json_Marshal env (normalizeValue data') = None
        \<longrightarrow> dataDigestWithRevision env data revision = dataDigestWithRevision env data' revision')
   \<and> (ResolveTemplates env state (Data r) = Inr resolved
        \<and> json_Marshal env (normalizeValue resolved) = None
        \<and> map_of state (Key r) = Some prev \<and> DataDigest prev = []
        \<longrightarrow> apply_resource env vaultAddr token r state tr = (Proceed, state, tr))
   \<and> (ResolveTemplates env state (Data r) = Inr resolved
        \<and> json_Marshal env (normalizeValue resolved) = None
        \<and> map_of state (Key r) = None
        \<and> FindByNsPath env state (NamespaceOrDefault r) (Path r) = Some (oldKey, prev)
        \<and> DataDigest prev = []
        \<longrightarrow> fst (snd (apply_resource env vaultAddr token r state tr)) = migrated r oldKey prev state
            \<and> requests (snd (snd (apply_resource env vaultAddr token r state tr))) = requests tr)"
proof -
  have A: "case json_Marshal env (normalizeValue data) of
          None \<Rightarrow> dataDigestWithRevision env data revision = []
        | Some d \<Rightarrow>
            dataDigestWithRevision env data revision = concat (map (\<lambda>c. [''0123456789abcdef'' ! (of_char c div 16),
                              ''0123456789abcdef'' ! (of_char c mod 16)]) (Sum256 env ([CHR ''{'', CHR 0x22] @ ''data'' @ [CHR 0x22, CHR '':''] @ d
                @ [CHR '','', CHR 0x22] @ ''revision'' @ [CHR 0x22, CHR '':''] @ show_nat revision
                @ [CHR ''}''])))
            \<and> length (dataDigestWithRevision env data revision)
                = 2 * length (Sum256 env ([CHR ''{'', CHR 0x22] @ ''data'' @ [CHR 0x22, CHR '':''] @ d
                @ [CHR '','', CHR 0x22] @ ''revision'' @ [CHR 0x22, CHR '':''] @ show_nat revision
                @ [CHR ''}'']))
            \<and> ((\<forall>b. length (Sum256 env b) = 32)
                 \<longrightarrow> length (dataDigestWithRevision env data revision) = 64)
            \<and> (\<forall>data' d' revision'. json_Marshal env (normalizeValue data') = Some d' \<longrightarrow>
                  (dataDigestWithRevision env data revision = dataDigestWithRevision env data' revision'
                     \<longleftrightarrow> Sum256 env ([CHR ''{'', CHR 0x22] @ ''data'' @ [CHR 0x22, CHR '':''] @ d
                @ [CHR '','', CHR 0x22] @ ''revision'' @ [CHR 0x22, CHR '':''] @ show_nat revision
                @ [CHR ''}'']) = Sum256 env ([CHR ''{'', CHR 0x22] @ ''data'' @ [CHR 0x22, CHR '':''] @ d'
                @ [CHR '','', CHR 0x22] @ ''revision'' @ [CHR 0x22, CHR '':''] @ show_nat revision'
                @ [CHR ''}'']))
                  \<and> (([CHR ''{'', CHR 0x22] @ ''data'' @ [CHR 0x22, CHR '':''] @ d
                @ [CHR '','', CHR 0x22] @ ''revision'' @ [CHR 0x22, CHR '':''] @ show_nat revision
                @ [CHR ''}'']) = ([CHR ''{'', CHR 0x22] @ ''data'' @ [CHR 0x22, CHR '':''] @ d'
                @ [CHR '','', CHR 0x22] @ ''revision'' @ [CHR 0x22, CHR '':''] @ show_nat revision'
                @ [CHR ''}'']) \<longleftrightarrow> d = d' \<and> revision = revision'))"
  proof (cases "json_Marshal env (normalizeValue data)")
    case None
    then have "dataDigestWithRevision env data revision = []" by (rule digest_empty)
    then show ?thesis unfolding None option.case .
  next
    case (Some d)
    note 1 = digest_hex[OF Some, of revision]
    note 2 = digest_length[OF Some, of revision]
    have 3: "(\<forall>b. length (Sum256 env b) = 32) \<longrightarrow> length (dataDigestWithRevision env data revision) = 64"
    proof
      assume "\<forall>b. length (Sum256 env b) = 32"
      then have "length (Sum256 env ([CHR ''{'', CHR 0x22] @ ''data'' @ [CHR 0x22, CHR '':''] @ d
                @ [CHR '','', CHR 0x22] @ ''revision'' @ [CHR 0x22, CHR '':''] @ show_nat revision
                @ [CHR ''}''])) = 32" by (rule spec)
      then show "length (dataDigestWithRevision env data revision) = 64" unfolding 2 by (simp only:)
    qed
    have 4: "\<forall>data' d' revision'. json_Marshal env (normalizeValue data') = Some d' \<longrightarrow>
                  (dataDigestWithRevision env data revision = dataDigestWithRevision env data' revision'
                     \<longleftrightarrow> Sum256 env ([CHR ''{'', CHR 0x22] @ ''data'' @ [CHR 0x22, CHR '':''] @ d
                @ [CHR '','', CHR 0x22] @ ''revision'' @ [CHR 0x22, CHR '':''] @ show_nat revision
                @ [CHR ''}'']) = Sum256 env ([CHR ''{'', CHR 0x22] @ ''data'' @ [CHR 0x22, CHR '':''] @ d'
                @ [CHR '','', CHR 0x22] @ ''revision'' @ [CHR 0x22, CHR '':''] @ show_nat revision'
                @ [CHR ''}'']))
                  \<and> (([CHR ''{'', CHR 0x22] @ ''data'' @ [CHR 0x22, CHR '':''] @ d
                @ [CHR '','', CHR 0x22] @ ''revision'' @ [CHR 0x22, CHR '':''] @ show_nat revision
                @ [CHR ''}'']) = ([CHR ''{'', CHR 0x22] @ ''data'' @ [CHR 0x22, CHR '':''] @ d'
                @ [CHR '','', CHR 0x22] @ ''revision'' @ [CHR 0x22, CHR '':''] @ show_nat revision'
                @ [CHR ''}'']) \<longleftrightarrow> d = d' \<and> revision = revision')"
    proof (intro allI impI conjI)
      fix data' d' revision' assume s': "json_Marshal env (normalizeValue data') = Some d'"
      show "dataDigestWithRevision env data revision = dataDigestWithRevision env data' revision'
                     \<longleftrightarrow> Sum256 env ([CHR ''{'', CHR 0x22] @ ''data'' @ [CHR 0x22, CHR '':''] @ d
                @ [CHR '','', CHR 0x22] @ ''revision'' @ [CHR 0x22, CHR '':''] @ show_nat revision
                @ [CHR ''}'']) = Sum256 env ([CHR ''{'', CHR 0x22] @ ''data'' @ [CHR 0x22, CHR '':''] @ d'
                @ [CHR '','', CHR 0x22] @ ''revision'' @ [CHR 0x22, CHR '':''] @ show_nat revision'
                @ [CHR ''}''])"
        by (rule digest_eq_iff[OF Some s'])
      show "([CHR ''{'', CHR 0x22] @ ''data'' @ [CHR 0x22, CHR '':''] @ d
                @ [CHR '','', CHR 0x22] @ ''revision'' @ [CHR 0x22, CHR '':''] @ show_nat revision
                @ [CHR ''}'']) = ([CHR ''{'', CHR 0x22] @ ''data'' @ [CHR 0x22, CHR '':''] @ d'
                @ [CHR '','', CHR 0x22] @ ''revision'' @ [CHR 0x22, CHR '':''] @ show_nat revision'
                @ [CHR ''}'']) \<longleftrightarrow> d = d' \<and> revision = revision'"
        by (rule envelope_eq_iff)
    qed
    show ?thesis unfolding Some option.case using 1 2 3 4 by (intro conjI) assumption+
  qed
  note B = digest_chars[of env data revision]
  have C: "json_Marshal env (normalizeValue data) = None \<and> json_Marshal env (normalizeValue data') = None
        \<longrightarrow> dataDigestWithRevision env data revision = dataDigestWithRevision env data' revision'"
    using digest_empty by (metis (no_types))
  have D: "ResolveTemplates env state (Data r) = Inr resolved
        \<and> json_Marshal env (normalizeValue resolved) = None
        \<and> map_of state (Key r) = Some prev \<and> DataDigest prev = []
        \<longrightarrow> apply_resource env vaultAddr token r state tr = (Proceed, state, tr)"
    using empty_digest_skips(1) by blast
  have E: "ResolveTemplates env state (Data r) = Inr resolved
        \<and> json_Marshal env (normalizeValue resolved) = None
        \<and> map_of state (Key r) = None
        \<and> FindByNsPath env state (NamespaceOrDefault r) (Path r) = Some (oldKey, prev)
        \<and> DataDigest prev = []
        \<longrightarrow> fst (snd (apply_resource env vaultAddr token r state tr)) = migrated r oldKey prev state
            \<and> requests (snd (snd (apply_resource env vaultAddr token r state tr))) = requests tr"
    using empty_digest_skips(2) by blast
  show ?thesis
    unfolding Let_def
    using A B C D E by (intro conjI) assumption+
qed

lemma sum_prefix_length: "length (sum_prefix b) = 32"
  by (simp add: sum_prefix_def)

theorem dataDigestWithRevision_total_witness:
  "dataDigestWithRevision vault (VMapS []) 12
     = ''7b2264617461223a7b7d2c227265766973696f6e223a31327d00000000000000''
   \<and> length (dataDigestWithRevision vault (VMapS []) 12) = 64
   \<and> dataDigestWithRevision vault (VMapS []) 12 \<noteq> dataDigestWithRevision vault (VMapS []) 13
   \<and> dataDigestWithRevision picky (VMapS [(''ratio'', VStr ''.nan'')]) 3 = []
   \<and> apply_resource picky ''http://v'' ''tok'' nan_doc nan_state [] = (Proceed, nan_state, [])"
proof -
  have sha: "\<forall>b. length (Sum256 vault b) = 32" by (simp add: vault_def sum_prefix_length)
  have e: "json_Marshal vault (normalizeValue (VMapS [])) = Some ''{}''"
    by code_simp
  have n: "json_Marshal picky (normalizeValue (VMapS [(''ratio'', VStr ''.nan'')])) = None"
    by (simp add: picky_def)
  note T = dataDigestWithRevision_total[where env = vault and data = "VMapS []" and revision = 12,
        THEN conjunct1, unfolded Let_def e option.case]
  have s12: "show_nat 12 = ''12''" by code_simp
  have s13: "show_nat 13 = ''13''" by code_simp
  have 1: "dataDigestWithRevision vault (VMapS []) 12
     = ''7b2264617461223a7b7d2c227265766973696f6e223a31327d00000000000000''"
    unfolding T[THEN conjunct1, THEN conjunct1] s12 by code_simp
  have 2: "length (dataDigestWithRevision vault (VMapS []) 12) = 64"
    using T[THEN conjunct1, THEN conjunct2, THEN conjunct2, THEN conjunct1] sha by blast
  have 3: "dataDigestWithRevision vault (VMapS []) 12 \<noteq> dataDigestWithRevision vault (VMapS []) 13"
    using T[THEN conjunct1, THEN conjunct2, THEN conjunct2, THEN conjunct2, rule_format, OF e, of 13,
        THEN conjunct1]
    unfolding s12 s13 by (simp add: vault_def sum_prefix_def numeral_eq_Suc)
  have 4: "dataDigestWithRevision picky (VMapS [(''ratio'', VStr ''.nan'')]) 3 = []"
    using dataDigestWithRevision_total[where env = picky and data = "VMapS [(''ratio'', VStr ''.nan'')]"
        and revision = 3, THEN conjunct1, unfolded Let_def n option.case, THEN conjunct1] .
  have "ResolveTemplates picky nan_state (Data nan_doc) = Inr (VMapS [(''ratio'', VStr ''.nan'')])"
    by (simp add: nan_doc_def resolveTemplateString_def first_error_entries_def)
  moreover have "map_of nan_state (Key nan_doc) = Some (state_at nan_state ''h'')"
    by (simp add: nan_state_def nan_doc_def Key_def EffectiveName_def state_at_def)
  moreover have "DataDigest (state_at nan_state ''h'') = []"
    by (simp add: nan_state_def state_at_def)
  ultimately have 5: "apply_resource picky ''http://v'' ''tok'' nan_doc nan_state [] = (Proceed, nan_state, [])"
    using n dataDigestWithRevision_total[where env = picky and state = nan_state and r = nan_doc
        and resolved = "VMapS [(''ratio'', VStr ''.nan'')]" and prev = "state_at nan_state ''h''"
        and vaultAddr = "''http://v''" and token = "''tok''" and tr = "[]",
        THEN conjunct2, THEN conjunct2, THEN conjunct1]
    by blast
  show ?thesis using 1 2 3 4 5 by (intro conjI) assumption+
qed

subsection \<open>Cycles\<close>

lemma Apply_cycle:
  "topologicalOrder rs = Inl e \<Longrightarrow> \<exists>e'. Apply env rs vaultAddr token state = (Some e', state, [])"
  by (simp add: Apply_def Let_def)

text \<open>
  Claim C8, as amended.  For every batch with pairwise distinct effective names (which
  the linter guarantees): if its dependency graph has a cycle, \<^verbatim>\<open>topologicalOrder\<close>
  reports the cycle and \<^verbatim>\<open>Apply\<close> returns an error with the state as it was and no
  request and no state write; if the graph has no cycle, the topological order lists
  every index of the batch exactly once, and each dependency before its dependents.
\<close>

theorem Apply_rejects_cycles:
  assumes "distinct (map EffectiveName rs)"
  shows "(\<not> acyclic (dep_edges rs) \<longrightarrow>
            topologicalOrder rs = Inl CycleInDependencies
            \<and> (\<exists>e. Apply env rs vaultAddr token state = (Some e, state, [])))
    \<and> (acyclic (dep_edges rs) \<longrightarrow>
         (\<exists>order. topologicalOrder rs = Inr order \<and> distinct order \<and> set order = {..<length rs}
            \<and> (\<forall>i j. (i, j) \<in> dep_edges rs \<longrightarrow> precedes order i j)))"
  using topologicalOrder_correct[OF assms] Apply_cycle[of rs CycleInDependencies env vaultAddr token state]
  by blast

lemma cyc_edges: "(0, 1) \<in> dep_edges [cyc_x, cyc_y] \<and> (1, 0) \<in> dep_edges [cyc_x, cyc_y]"
  by (simp add: dep_edges_def cyc_x_def cyc_y_def EffectiveName_def)

lemma cyc_not_acyclic: "\<not> acyclic (dep_edges [cyc_x, cyc_y])"
proof -
  have "(0, 0) \<in> (dep_edges [cyc_x, cyc_y])\<^sup>+"
    using cyc_edges by (meson trancl.simps)
  then show ?thesis by (auto simp: acyclic_def)
qed

lemma ab_edges: "dep_edges [doc_a, doc_b] = {(0, 1)}"
  by (auto simp: dep_edges_def doc_a_def doc_b_def EffectiveName_def less_Suc_eq)

lemma ab_acyclic: "acyclic (dep_edges [doc_a, doc_b])"
proof -
  have "dep_edges [doc_a, doc_b] \<subseteq> less_than" by (simp add: ab_edges)
  then show ?thesis using wf_acyclic[OF wf_less_than] by (rule acyclic_subset[rotated])
qed

theorem Apply_rejects_cycles_witness:
  "Apply vault [cyc_x, cyc_y] ''http://v/'' ''tok'' [] = (Some CycleInDependencies, [], [])
   \<and> topologicalOrder [doc_a, doc_b] = Inr [0, 1]
   \<and> precedes [0, 1] 0 (1::nat)"
proof -
  have d1: "distinct (map EffectiveName [cyc_x, cyc_y])"
    by (simp add: cyc_x_def cyc_y_def EffectiveName_def)
  have d2: "distinct (map EffectiveName [doc_a, doc_b])"
    by (simp add: doc_a_def doc_b_def EffectiveName_def)
  have "topologicalOrder [cyc_x, cyc_y] = Inl CycleInDependencies"
    using Apply_rejects_cycles[OF d1] cyc_not_acyclic by blast
  then have A: "Apply vault [cyc_x, cyc_y] ''http://v/'' ''tok'' [] = (Some CycleInDependencies, [], [])"
    by (simp add: Apply_def TrimSuffixSlash_def)
  obtain order where o: "topologicalOrder [doc_a, doc_b] = Inr order"
    and p: "\<forall>i j. (i, j) \<in> dep_edges [doc_a, doc_b] \<longrightarrow> precedes order i j"
    using Apply_rejects_cycles[OF d2] ab_acyclic by blast
  have "topologicalOrder [doc_a, doc_b] = Inr [0, 1]" by code_simp
  then have "order = [0, 1]" using o by simp
  then have "precedes [0, 1] 0 (1::nat)" using p ab_edges by simp
  then show ?thesis using A \<open>topologicalOrder [doc_a, doc_b] = Inr [0, 1]\<close> by simp
qed

text \<open>
  Claim C8 as stated fails on a batch with a duplicate effective name.  \<^verbatim>\<open>byName\<close>
  keeps the last index of a name, so with \<open>x\<close> depending on \<open>y\<close>, \<open>y\<close> on \<open>x\<close>, and a
  second document named \<open>x\<close> without dependencies, the cycle between the first two
  documents goes unnoticed: an order is returned and three requests are sent.
\<close>

theorem topologicalOrder_misses_cycle_on_duplicate_names:
  "(0, 1) \<in> dep_edges [cyc_x, cyc_y, dup_x] \<and> (1, 0) \<in> dep_edges [cyc_x, cyc_y, dup_x]
   \<and> topologicalOrder [cyc_x, cyc_y, dup_x] = Inr [2, 1, 0]
   \<and> fst (Apply vault [cyc_x, cyc_y, dup_x] ''http://v/'' ''tok'' []) = None
   \<and> map ReqURL (requests (snd (snd (Apply vault [cyc_x, cyc_y, dup_x] ''http://v/'' ''tok'' []))))
        = [''http://v/v1/kv/x2'', ''http://v/v1/kv/y'', ''http://v/v1/kv/x'']"
proof -
  have "(0, 1) \<in> dep_edges [cyc_x, cyc_y, dup_x] \<and> (1, 0) \<in> dep_edges [cyc_x, cyc_y, dup_x]"
    by (simp add: dep_edges_def cyc_x_def cyc_y_def EffectiveName_def)
  moreover have "topologicalOrder [cyc_x, cyc_y, dup_x] = Inr [2, 1, 0]" by code_simp
  moreover have "fst (Apply vault [cyc_x, cyc_y, dup_x] ''http://v/'' ''tok'' []) = None" by code_simp
  moreover have "map ReqURL (requests (snd (snd (Apply vault [cyc_x, cyc_y, dup_x] ''http://v/'' ''tok'' []))))
        = [''http://v/v1/kv/x2'', ''http://v/v1/kv/y'', ''http://v/v1/kv/x'']" by code_simp
  ultimately show ?thesis by simp
qed

subsection \<open>Key migration\<close>

text \<open>
  Claim C3 fails when two state entries carry the namespace and path of the resource.
  \<^verbatim>\<open>FindByNsPath\<close> returns the first entry with that pair that the iteration over the
  map meets, and only that entry's digest is compared.  Below, \<open>z\<close> is absent from the
  state, the entry \<open>y\<close> has the pair and the digest of \<open>z\<close>, but the iteration meets \<open>x\<close>
  first, which has the same pair and another digest: nothing is migrated, a POST is sent
  for \<open>z\<close>, and \<open>y\<close> is deleted on the target by the delete pass.
\<close>

theorem FindByNsPath_misses_matching_entry:
  "map_of same_state (Key same_z) = None
   \<and> normalizeNamespace (SNamespace (state_at same_state ''y'')) = normalizeNamespace (NamespaceOrDefault same_z)
   \<and> normalizePath (SPath (state_at same_state ''y'')) = normalizePath (Path same_z)
   \<and> DataDigest (state_at same_state ''y'')
        = dataDigestWithRevision vault (Data same_z) (revisionForDigest (Revision same_z))
   \<and> map fst (range_map vault same_state) = [''x'', ''y'']
   \<and> FindByNsPath vault same_state (NamespaceOrDefault same_z) (Path same_z)
        = Some (''x'', state_at same_state ''x'')
   \<and> map (\<lambda>rq. (ReqMethod rq, ReqURL rq))
         (requests (snd (snd (Apply vault [same_x, same_z] ''http://v/'' ''tok'' same_state))))
        = [(''POST'', ''http://v/v1/kv/p''), (''DELETE'', ''http://v/v1/kv/p'')]"
proof -
  have "map_of same_state (Key same_z) = None" by code_simp
  moreover have "normalizeNamespace (SNamespace (state_at same_state ''y'')) = normalizeNamespace (NamespaceOrDefault same_z)"
    by code_simp
  moreover have "normalizePath (SPath (state_at same_state ''y'')) = normalizePath (Path same_z)"
    by code_simp
  moreover have "DataDigest (state_at same_state ''y'')
        = dataDigestWithRevision vault (Data same_z) (revisionForDigest (Revision same_z))"
    by code_simp
  moreover have "map fst (range_map vault same_state) = [''x'', ''y'']" by code_simp
  moreover have "FindByNsPath vault same_state (NamespaceOrDefault same_z) (Path same_z)
        = Some (''x'', state_at same_state ''x'')" by code_simp
  moreover have "map (\<lambda>rq. (ReqMethod rq, ReqURL rq))
         (requests (snd (snd (Apply vault [same_x, same_z] ''http://v/'' ''tok'' same_state))))
        = [(''POST'', ''http://v/v1/kv/p''), (''DELETE'', ''http://v/v1/kv/p'')]" by code_simp
  ultimately show ?thesis by simp
qed

subsection \<open>Status of a DELETE\<close>

lemma delete_key_tombstone:
  assumes "\<not> NewRequest_fails env ''DELETE'' (ReqURL (delete_request a t state key))"
    and "Do env tr (delete_request a t state key) = Response status body"
    and "status = 404 \<or> status = 405"
  shows "delete_key env a t key state tr =
     (if fst (save env (AList.delete key state) (tr @ [Request (delete_request a t state key)]))
      then failure (SIgnoreFailures (state_at state key))
             (DeleteError (SNamespace (state_at state key)) (SPath (state_at state key))
                (DeleteSaveStateAfter status))
      else Proceed,
      AList.delete key state,
      snd (save env (AList.delete key state) (tr @ [Request (delete_request a t state key)])))"
  using assms by (auto simp: delete_key_def delete_request_def Let_def split: prod.splits)

lemma delete_key_other:
  assumes "\<not> NewRequest_fails env ''DELETE'' (ReqURL (delete_request a t state key))"
    and "Do env tr (delete_request a t state key) = Response status body"
    and "\<not> (200 \<le> status \<and> status < 300)" and "status \<noteq> 404" and "status \<noteq> 405"
  shows "delete_key env a t key state tr =
     (failure (SIgnoreFailures (state_at state key))
        (DeleteError (SNamespace (state_at state key)) (SPath (state_at state key))
           (DeleteStatus status (TrimSpace body))),
      state, tr @ [Request (delete_request a t state key)])"
  using assms by (auto simp: delete_key_def delete_request_def Let_def)

lemma save_trace: "writer env \<noteq> None \<Longrightarrow> snd (save env s tr) = tr @ [SaveState s]"
  by (auto simp: save_def)

lemma delete_key_no_writer:
  assumes "\<not> NewRequest_fails env ''DELETE'' (ReqURL (delete_request a t state key))"
    and "Do env tr (delete_request a t state key) = Response status body"
    and "status = 404 \<or> status = 405" and "writer env = None"
  shows "delete_key env a t key state tr
     = (Proceed, AList.delete key state, tr @ [Request (delete_request a t state key)])"
  using delete_key_tombstone[OF assms(1-3)] assms(4) by (simp add: save_def)

lemma delete_key_writer:
  assumes "\<not> NewRequest_fails env ''DELETE'' (ReqURL (delete_request a t state key))"
    and "Do env tr (delete_request a t state key) = Response status body"
    and "status = 404 \<or> status = 405" and "writer env = Some w"
  shows "delete_key env a t key state tr
     = (if w (tr @ [Request (delete_request a t state key)]) (AList.delete key state)
        then (if SIgnoreFailures (state_at state key)
              then Ignored (DeleteError (SNamespace (state_at state key)) (SPath (state_at state key))
                     (DeleteSaveStateAfter status))
              else Abort (DeleteError (SNamespace (state_at state key)) (SPath (state_at state key))
                     (DeleteSaveStateAfter status)))
        else Proceed,
        AList.delete key state,
        tr @ [Request (delete_request a t state key), SaveState (AList.delete key state)])"
  using delete_key_tombstone[OF assms(1-3)] assms(4) by (simp add: save_def failure_def)

text \<open>
  Claim C9, as amended.  When the DELETE request for a key is answered with 404 or 405,
  the engine removes the key from the state and hands the state to the writer, if there
  is one; the status itself produces no error, whatever the entry's \<^verbatim>\<open>ignore_failures\<close>:
  the loop goes on with the next key when there is no writer or the write succeeds, and
  the only error possible for that key is a failed state write, which aborts unless
  \<^verbatim>\<open>ignore_failures\<close> is set; when it is set the error is dropped and the loop goes on
  with the key removed.  Any other status outside 200..299 produces an error, which
  aborts unless \<^verbatim>\<open>ignore_failures\<close> is set, in which case the error is dropped, the state
  is left as it is and the loop goes on.
\<close>

theorem delete_status_classes:
  assumes "\<not> NewRequest_fails env ''DELETE'' (ReqURL (delete_request a t state key))"
    and "Do env tr (delete_request a t state key) = Response status body"
  shows "((status = 404 \<or> status = 405) \<longrightarrow>
            fst (snd (delete_key env a t key state tr)) = AList.delete key state
          \<and> map_of (fst (snd (delete_key env a t key state tr))) key = None
          \<and> (writer env = None \<longrightarrow>
                delete_key env a t key state tr
                  = (Proceed, AList.delete key state, tr @ [Request (delete_request a t state key)])
              \<and> delete_pass env a t (key # keys) state tr
                  = delete_pass env a t keys (AList.delete key state)
                      (tr @ [Request (delete_request a t state key)]))
          \<and> (\<forall>w. writer env = Some w \<longrightarrow>
                snd (snd (delete_key env a t key state tr))
                  = tr @ [Request (delete_request a t state key), SaveState (AList.delete key state)]
              \<and> (\<not> w (tr @ [Request (delete_request a t state key)]) (AList.delete key state) \<longrightarrow>
                    fst (delete_key env a t key state tr) = Proceed
                  \<and> delete_pass env a t (key # keys) state tr
                      = delete_pass env a t keys (AList.delete key state)
                          (tr @ [Request (delete_request a t state key), SaveState (AList.delete key state)]))
              \<and> (w (tr @ [Request (delete_request a t state key)]) (AList.delete key state)
                   \<and> \<not> SIgnoreFailures (state_at state key) \<longrightarrow>
                    delete_pass env a t (key # keys) state tr
                      = (Some (DeleteError (SNamespace (state_at state key)) (SPath (state_at state key))
                                 (DeleteSaveStateAfter status)),
                         AList.delete key state,
                         tr @ [Request (delete_request a t state key), SaveState (AList.delete key state)]))
              \<and> (w (tr @ [Request (delete_request a t state key)]) (AList.delete key state)
                   \<and> SIgnoreFailures (state_at state key) \<longrightarrow>
                    fst (delete_key env a t key state tr)
                      = Ignored (DeleteError (SNamespace (state_at state key)) (SPath (state_at state key))
                                   (DeleteSaveStateAfter status))
                  \<and> delete_pass env a t (key # keys) state tr
                      = delete_pass env a t keys (AList.delete key state)
                          (tr @ [Request (delete_request a t state key), SaveState (AList.delete key state)]))))
    \<and> (\<not> (200 \<le> status \<and> status < 300) \<and> status \<noteq> 404 \<and> status \<noteq> 405 \<longrightarrow>
          (\<not> SIgnoreFailures (state_at state key) \<longrightarrow>
             delete_pass env a t (key # keys) state tr
               = (Some (DeleteError (SNamespace (state_at state key)) (SPath (state_at state key))
                          (DeleteStatus status (TrimSpace body))),
                  state, tr @ [Request (delete_request a t state key)]))
        \<and> (SIgnoreFailures (state_at state key) \<longrightarrow>
             delete_key env a t key state tr
               = (Ignored (DeleteError (SNamespace (state_at state key)) (SPath (state_at state key))
                             (DeleteStatus status (TrimSpace body))),
                  state, tr @ [Request (delete_request a t state key)])
           \<and> delete_pass env a t (key # keys) state tr
               = delete_pass env a t keys state (tr @ [Request (delete_request a t state key)])))"
proof (intro conjI impI allI)
  assume s: "status = 404 \<or> status = 405"
  note dk = delete_key_tombstone[OF assms s]
  show "fst (snd (delete_key env a t key state tr)) = AList.delete key state" by (simp add: dk)
  show "map_of (fst (snd (delete_key env a t key state tr))) key = None" by (simp add: dk delete_conv')
  {
    assume n: "writer env = None"
    note dn = delete_key_no_writer[OF assms s n]
    show "delete_key env a t key state tr
        = (Proceed, AList.delete key state, tr @ [Request (delete_request a t state key)])"
      by (rule dn)
    show "delete_pass env a t (key # keys) state tr
        = delete_pass env a t keys (AList.delete key state) (tr @ [Request (delete_request a t state key)])"
      by (simp add: dn)
  }
  fix w assume w: "writer env = Some w"
  note dw = delete_key_writer[OF assms s w]
  show "snd (snd (delete_key env a t key state tr))
      = tr @ [Request (delete_request a t state key), SaveState (AList.delete key state)]"
    by (simp add: dw)
  {
    assume ok: "\<not> w (tr @ [Request (delete_request a t state key)]) (AList.delete key state)"
    show "fst (delete_key env a t key state tr) = Proceed" using ok by (simp add: dw)
    show "delete_pass env a t (key # keys) state tr
        = delete_pass env a t keys (AList.delete key state)
            (tr @ [Request (delete_request a t state key), SaveState (AList.delete key state)])"
      using ok by (simp add: dw)
  }
  {
    assume "w (tr @ [Request (delete_request a t state key)]) (AList.delete key state)
        \<and> \<not> SIgnoreFailures (state_at state key)"
    then show "delete_pass env a t (key # keys) state tr
        = (Some (DeleteError (SNamespace (state_at state key)) (SPath (state_at state key))
                   (DeleteSaveStateAfter status)),
           AList.delete key state,
           tr @ [Request (delete_request a t state key), SaveState (AList.delete key state)])"
      by (simp add: dw)
  }
  {
    assume f: "w (tr @ [Request (delete_request a t state key)]) (AList.delete key state)
        \<and> SIgnoreFailures (state_at state key)"
    show "fst (delete_key env a t key state tr)
        = Ignored (DeleteError (SNamespace (state_at state key)) (SPath (state_at state key))
                     (DeleteSaveStateAfter status))"
      using f by (simp add: dw)
    show "delete_pass env a t (key # keys) state tr
        = delete_pass env a t keys (AList.delete key state)
            (tr @ [Request (delete_request a t state key), SaveState (AList.delete key state)])"
      using f by (simp add: dw)
  }
next
  assume o: "\<not> (200 \<le> status \<and> status < 300) \<and> status \<noteq> 404 \<and> status \<noteq> 405"
  then have o': "\<not> (200 \<le> status \<and> status < 300)" "status \<noteq> 404" "status \<noteq> 405" by simp_all
  note dk = delete_key_other[OF assms o']
  show "\<not> SIgnoreFailures (state_at state key) \<Longrightarrow>
             delete_pass env a t (key # keys) state tr
               = (Some (DeleteError (SNamespace (state_at state key)) (SPath (state_at state key))
                          (DeleteStatus status (TrimSpace body))),
                  state, tr @ [Request (delete_request a t state key)])"
    by (simp add: dk failure_def)
  show "SIgnoreFailures (state_at state key) \<Longrightarrow>
             delete_key env a t key state tr
               = (Ignored (DeleteError (SNamespace (state_at state key)) (SPath (state_at state key))
                             (DeleteStatus status (TrimSpace body))),
                  state, tr @ [Request (delete_request a t state key)])"
    by (simp add: dk failure_def)
  show "SIgnoreFailures (state_at state key) \<Longrightarrow>
             delete_pass env a t (key # keys) state tr
               = delete_pass env a t keys state (tr @ [Request (delete_request a t state key)])"
    by (simp add: dk failure_def)
qed

theorem delete_status_classes_witness:
  "delete_pass tombstone ''http://v'' ''tok'' [''b''] ab_state []
     = (None, AList.delete ''b'' ab_state,
        [Request (delete_request ''http://v'' ''tok'' ab_state ''b''), SaveState (AList.delete ''b'' ab_state)])
   \<and> SIgnoreFailures (state_at lenient_state ''b'')
   \<and> delete_pass gone ''http://v'' ''tok'' [''b''] lenient_state []
     = (None, [], [Request (delete_request ''http://v'' ''tok'' lenient_state ''b''), SaveState []])"
proof -
  have n: "\<not> NewRequest_fails tombstone ''DELETE'' (ReqURL (delete_request ''http://v'' ''tok'' ab_state ''b''))"
    by (simp add: tombstone_def vault_def)
  have d: "Do tombstone [] (delete_request ''http://v'' ''tok'' ab_state ''b'') = Response 404 []"
    by (simp add: tombstone_def vault_def delete_request_def)
  have w: "writer tombstone = Some (\<lambda>tr st. False)" by (simp add: tombstone_def vault_def)
  have 1: "delete_pass tombstone ''http://v'' ''tok'' [''b''] ab_state []
     = (None, AList.delete ''b'' ab_state,
        [Request (delete_request ''http://v'' ''tok'' ab_state ''b''), SaveState (AList.delete ''b'' ab_state)])"
    using delete_status_classes[OF n d, of "[]", THEN conjunct1] w by simp
  have n': "\<not> NewRequest_fails gone ''DELETE'' (ReqURL (delete_request ''http://v'' ''tok'' lenient_state ''b''))"
    by (simp add: gone_def tombstone_def vault_def)
  have d': "Do gone [] (delete_request ''http://v'' ''tok'' lenient_state ''b'') = Response 404 []"
    by (simp add: gone_def tombstone_def vault_def delete_request_def)
  have w': "writer gone = Some (\<lambda>tr st. True)" by (simp add: gone_def)
  have i: "SIgnoreFailures (state_at lenient_state ''b'')" by (simp add: lenient_state_def state_at_def)
  have e: "AList.delete ''b'' lenient_state = []" by (simp add: lenient_state_def)
  have 2: "delete_pass gone ''http://v'' ''tok'' [''b''] lenient_state []
     = (None, [], [Request (delete_request ''http://v'' ''tok'' lenient_state ''b''), SaveState []])"
    using delete_status_classes[OF n' d', of "[]", THEN conjunct1] w' i e by simp
  show ?thesis using 1 i 2 by (intro conjI) assumption+
qed

text \<open>
  Claim C9 as stated fails when the state write after a 404 fails: with
  \<^verbatim>\<open>ignore_failures\<close> unset, \<^verbatim>\<open>Apply\<close> returns an error for that key.
\<close>

theorem delete_tombstone_surfaces_write_error:
  "fst (Apply gone [doc_a] ''http://v/'' ''tok'' ab_state)
     = Some (DeleteError [] ''kv1/s'' (DeleteSaveStateAfter 404))
   \<and> SIgnoreFailures (state_at ab_state ''b'') = False
   \<and> map (\<lambda>rq. (ReqMethod rq, ReqURL rq))
        (requests (snd (snd (Apply gone [doc_a] ''http://v/'' ''tok'' ab_state))))
       = [(''DELETE'', ''http://v/v1/kv1/s'')]"
proof -
  have "fst (Apply gone [doc_a] ''http://v/'' ''tok'' ab_state)
     = Some (DeleteError [] ''kv1/s'' (DeleteSaveStateAfter 404))" by code_simp
  moreover have "SIgnoreFailures (state_at ab_state ''b'') = False" by code_simp
  moreover have "map (\<lambda>rq. (ReqMethod rq, ReqURL rq))
        (requests (snd (snd (Apply gone [doc_a] ''http://v/'' ''tok'' ab_state))))
       = [(''DELETE'', ''http://v/v1/kv1/s'')]" by code_simp
  ultimately show ?thesis by simp
qed

subsection \<open>The delete order and the keys of the state\<close>

lemma relax_keys_result:
  "relax_keys vs d q = (d', q') \<Longrightarrow>
   (\<forall>j. at0 d' j = at0 d j - int (count_list vs j))
   \<and> (\<exists>new. q' = q @ new \<and> distinct new
          \<and> set new = {j \<in> set vs. 1 \<le> at0 d j \<and> at0 d j \<le> int (count_list vs j)})"
proof (induction vs arbitrary: d q)
  case Nil
  then show ?case by simp
next
  case (Cons v vs)
  define d1 where "d1 = AList.update v (at0 d v - 1) d"
  define q1 where "q1 = (if at0 d1 v = 0 then q @ [v] else q)"
  have rec: "relax_keys vs d1 q1 = (d', q')"
    using Cons.prems by (simp add: d1_def q1_def Let_def)
  have d1v: "at0 d1 v = at0 d v - 1" and d1o: "\<And>j. j \<noteq> v \<Longrightarrow> at0 d1 j = at0 d j"
    by (simp_all add: d1_def at0_update)
  from Cons.IH[OF rec] obtain new where
    val: "\<forall>j. at0 d' j = at0 d1 j - int (count_list vs j)"
    and q': "q' = q1 @ new" and dn: "distinct new"
    and sn: "set new = {j \<in> set vs. 1 \<le> at0 d1 j \<and> at0 d1 j \<le> int (count_list vs j)}"
    by blast
  have A: "\<forall>j. at0 d' j = at0 d j - int (count_list (v # vs) j)"
  proof
    fix j show "at0 d' j = at0 d j - int (count_list (v # vs) j)"
      using val d1v d1o[of j] by (cases "j = v") auto
  qed
  define new' where "new' = (if at0 d v = 1 then v # new else new)"
  have B: "q' = q @ new'"
    by (simp add: q' q1_def new'_def d1v)
  have vnew: "v \<in> set new \<longleftrightarrow> v \<in> set vs \<and> 2 \<le> at0 d v \<and> at0 d v \<le> int (count_list vs v) + 1"
    using sn d1v by auto
  have C: "distinct new'"
    using dn vnew by (auto simp: new'_def)
  have D: "set new' = {j \<in> set (v # vs). 1 \<le> at0 d j \<and> at0 d j \<le> int (count_list (v # vs) j)}"
  proof (intro set_eqI iffI)
    fix j assume j: "j \<in> set new'"
    show "j \<in> {j \<in> set (v # vs). 1 \<le> at0 d j \<and> at0 d j \<le> int (count_list (v # vs) j)}"
    proof (cases "j = v")
      case True
      then show ?thesis using j vnew by (auto simp: new'_def split: if_splits)
    next
      case False
      then have "j \<in> set new" using j by (auto simp: new'_def split: if_splits)
      then show ?thesis using sn False d1o[of j] by auto
    qed
  next
    fix j assume j: "j \<in> {j \<in> set (v # vs). 1 \<le> at0 d j \<and> at0 d j \<le> int (count_list (v # vs) j)}"
    show "j \<in> set new'"
    proof (cases "j = v")
      case True
      show ?thesis
      proof (cases "at0 d v = 1")
        case True then show ?thesis using \<open>j = v\<close> by (simp add: new'_def)
      next
        case False
        then have "2 \<le> at0 d v" "at0 d v \<le> int (count_list vs v) + 1" using j True by auto
        moreover from this have "v \<in> set vs" by (cases "count_list vs v = 0") (auto simp: count_list_0_iff)
        ultimately show ?thesis using vnew True by (simp add: new'_def)
      qed
    next
      case False
      then have "j \<in> set new" using j sn d1o[of j] by auto
      then show ?thesis by (simp add: new'_def)
    qed
  qed
  have "\<exists>new. q' = q @ new \<and> distinct new
          \<and> set new = {j \<in> set (v # vs). 1 \<le> at0 d j \<and> at0 d j \<le> int (count_list (v # vs) j)}"
    using B C D by (intro exI[of _ new']) simp
  then show ?case using A by simp
qed

lemma keys_inv_step:
  assumes inv: "keys_inv K adj (u # q) d ord" and r: "relax_keys (at_nil adj u) d q = (d', q')"
  shows "keys_inv K adj q' d' (ord @ [u])"
proof -
  define c where "c = (\<lambda>w j. count_list (at_nil adj w) j)"
  define A where "A = K - set ord"
  note defs = c_def A_def
  from inv have fin: "finite K"
    and rng: "\<forall>u. \<forall>v\<in>set (at_nil adj u). v \<in> K"
    and dist: "distinct (ord @ u # q)" and bnd: "\<forall>x\<in>set (ord @ u # q). x \<in> K"
    and deg: "\<forall>j\<in>K. at0 d j = int (\<Sum>w\<in>A. c w j)"
    and zero: "\<forall>j\<in>K. j \<in> set (ord @ u # q) \<longleftrightarrow> at0 d j = 0"
    and prec: "\<forall>pre j post. ord = pre @ j # post \<longrightarrow> (\<forall>w\<in>K. j \<in> set (at_nil adj w) \<longrightarrow> w \<in> set pre)"
    unfolding keys_inv_def c_def A_def by blast+
  have un: "u \<in> K" using bnd by simp
  have uA: "u \<in> A" using dist un by (simp add: A_def)
  have finA: "finite A" using fin by (simp add: A_def)
  have A': "K - set (ord @ [u]) = A - {u}" by (auto simp: A_def)
  have split: "\<And>j. (\<Sum>w\<in>A. c w j) = c u j + (\<Sum>w\<in>A - {u}. c w j)"
    using sum.remove[OF finA uA] by simp
  from relax_keys_result[OF r] obtain new where
    val: "\<forall>j. at0 d' j = at0 d j - int (c u j)"
    and q': "q' = q @ new" and dn: "distinct new"
    and sn: "set new = {j \<in> set (at_nil adj u). 1 \<le> at0 d j \<and> at0 d j \<le> int (c u j)}"
    unfolding c_def by auto
  have newn: "\<forall>j\<in>set new. j \<in> K" using sn rng by auto
  have deg': "\<forall>j\<in>K. at0 d' j = int (\<Sum>w\<in>A - {u}. c w j)"
    using val deg split by simp
  have newfresh: "\<forall>j\<in>set new. j \<notin> set (ord @ u # q)"
  proof
    fix j assume j: "j \<in> set new"
    then have "j \<in> K" "at0 d j \<noteq> 0" using newn sn by auto
    then show "j \<notin> set (ord @ u # q)" using zero by blast
  qed
  have dist': "distinct ((ord @ [u]) @ q')"
    using dist dn newfresh by (auto simp: q')
  have bnd': "\<forall>x\<in>set ((ord @ [u]) @ q'). x \<in> K"
    using bnd newn by (auto simp: q')
  have zero': "\<forall>j\<in>K. j \<in> set ((ord @ [u]) @ q') \<longleftrightarrow> at0 d' j = 0"
  proof
    fix j assume jn: "j \<in> K"
    define S where "S = (\<Sum>w\<in>A - {u}. c w j)"
    have dj: "at0 d j = int (c u j) + int S" using deg split jn unfolding S_def by simp
    have d'j: "at0 d' j = int S" using deg' jn unfolding S_def by simp
    show "j \<in> set ((ord @ [u]) @ q') \<longleftrightarrow> at0 d' j = 0"
    proof
      assume "j \<in> set ((ord @ [u]) @ q')"
      then consider "j \<in> set (ord @ u # q)" | "j \<in> set new" by (auto simp: q')
      then show "at0 d' j = 0"
      proof cases
        case 1
        then have "at0 d j = 0" using zero jn by blast
        then show ?thesis using dj d'j by simp
      next
        case 2
        then have "at0 d j \<le> int (c u j)" using sn by simp
        then show ?thesis using dj d'j by simp
      qed
    next
      assume z: "at0 d' j = 0"
      then have eq: "at0 d j = int (c u j)" using dj d'j by simp
      show "j \<in> set ((ord @ [u]) @ q')"
      proof (cases "at0 d j = 0")
        case True
        then have "j \<in> set (ord @ u # q)" using zero jn by blast
        then show ?thesis by (auto simp: q')
      next
        case False
        then have "1 \<le> at0 d j" "c u j \<noteq> 0" using eq by simp_all
        then have "j \<in> set (at_nil adj u)" by (auto simp: c_def count_list_0_iff)
        then have "j \<in> set new" using sn eq \<open>1 \<le> at0 d j\<close> by simp
        then show ?thesis by (simp add: q')
      qed
    qed
  qed
  have prec': "\<forall>pre j post. ord @ [u] = pre @ j # post \<longrightarrow> (\<forall>w\<in>K. j \<in> set (at_nil adj w) \<longrightarrow> w \<in> set pre)"
  proof (intro allI impI ballI)
    fix pre j post w
    assume eq: "ord @ [u] = pre @ j # post" and wn: "w \<in> K" and jw: "j \<in> set (at_nil adj w)"
    show "w \<in> set pre"
    proof (cases post rule: rev_cases)
      case Nil
      then have pj: "pre = ord" "j = u" using eq by simp_all
      have "u \<in> set (ord @ u # q)" by simp
      then have "at0 d u = 0" using zero un by blast
      with deg[rule_format, OF un] have "int (\<Sum>w\<in>A. c w u) = 0" by (simp only:)
      then have "(\<Sum>w\<in>A. c w u) = 0" by (simp only: of_nat_eq_0_iff)
      then have "\<forall>w\<in>A. c w u = 0" using finA by simp
      moreover have "c w u \<noteq> 0" using jw pj by (simp add: c_def count_list_0_iff)
      ultimately have "w \<notin> A" by auto
      then show ?thesis using wn pj by (simp add: A_def)
    next
      case (snoc post' x)
      then have "ord = pre @ j # post'" using eq by simp
      then show ?thesis using prec wn jw by blast
    qed
  qed
  have deg'': "\<forall>j\<in>K. at0 d' j = int (\<Sum>w\<in>K - set (ord @ [u]). c w j)"
    using deg' unfolding A' .
  show "keys_inv K adj q' d' (ord @ [u])"
    unfolding keys_inv_def
    using fin rng dist' bnd' deg''[unfolded defs] zero' prec'
    by (intro conjI) assumption+
qed

lemma drain_keys_inv:
  "keys_inv K adj q d ord \<Longrightarrow> \<exists>d'. keys_inv K adj [] d' (drain_keys adj q d ord)"
proof (induction adj q d ord rule: drain_keys.induct)
  case (1 adj d ord)
  then show ?case by auto
next
  case (2 adj u q d ord)
  obtain d' q' where r: "relax_keys (at_nil adj u) d q = (d', q')"
    by (cases "relax_keys (at_nil adj u) d q")
  from keys_inv_step[OF "2.prems" r] have inv': "keys_inv K adj q' d' (ord @ [u])" .
  from "2.IH"[OF r[symmetric] inv'] show ?case using r by simp
qed

lemma at_nil_update: "at_nil (AList.update k x m) k' = (if k' = k then x else at_nil m k')"
  by (simp add: at_nil_def update_conv')

lemma init_graph_result:
  "init_graph ks (d, a) = (d', a') \<Longrightarrow>
   (\<forall>j. at0 d' j = (if j \<in> set ks then 0 else at0 d j))
   \<and> (\<forall>u. at_nil a' u = (if u \<in> set ks then [] else at_nil a u))
   \<and> fst ` set d' = fst ` set d \<union> set ks"
proof (induction ks arbitrary: d a)
  case Nil then show ?case by simp
next
  case (Cons k ks)
  have rec: "init_graph ks (AList.update k 0 d, AList.update k [] a) = (d', a')"
    using Cons.prems by simp
  from Cons.IH[OF rec] show ?case
    by (auto simp: at0_update at_nil_update dom_update)
qed

lemma add_stored_dependencies_result:
  "add_stored_dependencies keys k ds (d, a) = (d', a') \<Longrightarrow>
   (\<forall>j. at0 d' j = at0 d j + (if j = k then int (length (filter (\<lambda>x. x \<in> set keys) ds)) else 0))
   \<and> (\<forall>u. at_nil a' u = at_nil a u @ replicate (if u \<in> set keys then count_list ds u else 0) k)
   \<and> fst ` set d \<subseteq> fst ` set d' \<and> fst ` set d' \<subseteq> insert k (fst ` set d)"
proof (induction ds arbitrary: d a)
  case Nil then show ?case by auto
next
  case (Cons dep ds)
  show ?case
  proof (cases "dep \<in> set keys")
    case False
    then have "add_stored_dependencies keys k ds (d, a) = (d', a')" using Cons.prems by simp
    from Cons.IH[OF this] show ?thesis using False by simp
  next
    case True
    let ?d1 = "AList.update k (at0 d k + 1) d" and ?a1 = "AList.update dep (at_nil a dep @ [k]) a"
    have rec: "add_stored_dependencies keys k ds (?d1, ?a1) = (d', a')"
      using Cons.prems True by simp
    note R = Cons.IH[OF rec]
    note dj = R[THEN conjunct1] and au = R[THEN conjunct2, THEN conjunct1]
      and dom = R[THEN conjunct2, THEN conjunct2, THEN conjunct1] R[THEN conjunct2, THEN conjunct2, THEN conjunct2]
    have "\<forall>j. at0 d' j = at0 d j + (if j = k then int (length (filter (\<lambda>x. x \<in> set keys) (dep # ds))) else 0)"
      using dj True by (simp add: at0_update)
    moreover have "\<forall>u. at_nil a' u = at_nil a u @ replicate (if u \<in> set keys then count_list (dep # ds) u else 0) k"
    proof
      fix u show "at_nil a' u = at_nil a u @ replicate (if u \<in> set keys then count_list (dep # ds) u else 0) k"
        using au[rule_format, of u] True
        by (cases "u = dep") (simp_all add: at_nil_update replicate_app_Cons_same)
    qed
    moreover have "fst ` set d \<subseteq> fst ` set d'" "fst ` set d' \<subseteq> insert k (fst ` set d)"
    proof -
      have "\<And>A B :: string set. insert k A \<subseteq> B \<Longrightarrow> A \<subseteq> B" by blast
      from this[OF dom(1)[unfolded dom_update insert_is_Un[symmetric]]] show "fst ` set d \<subseteq> fst ` set d'" .
      have "\<And>A B :: string set. B \<subseteq> insert k (insert k A) \<Longrightarrow> B \<subseteq> insert k A" by blast
      from this[OF dom(2)[unfolded dom_update insert_is_Un[symmetric]]] show "fst ` set d' \<subseteq> insert k (fst ` set d)" .
    qed
    ultimately show ?thesis by blast
  qed
qed

lemma add_stored_edges_result:
  "add_stored_edges state keys ks (d, a) = (d', a') \<Longrightarrow> distinct ks \<Longrightarrow>
   (\<forall>j. at0 d' j = at0 d j
        + (if j \<in> set ks then int (length (filter (\<lambda>x. x \<in> set keys) (SDependencies (state_at state j)))) else 0))
   \<and> (\<forall>u j. count_list (at_nil a' u) j = count_list (at_nil a u) j
        + (if j \<in> set ks \<and> u \<in> set keys then count_list (SDependencies (state_at state j)) u else 0))
   \<and> fst ` set d \<subseteq> fst ` set d' \<and> fst ` set d' \<subseteq> fst ` set d \<union> set ks"
proof (induction ks arbitrary: d a)
  case Nil then show ?case by simp
next
  case (Cons k ks)
  obtain d1 a1 where s1: "add_stored_dependencies keys k (SDependencies (state_at state k)) (d, a) = (d1, a1)"
    by (cases "add_stored_dependencies keys k (SDependencies (state_at state k)) (d, a)")
  note R1 = add_stored_dependencies_result[OF s1]
  note d1 = R1[THEN conjunct1] and a1 = R1[THEN conjunct2, THEN conjunct1]
    and dom1 = R1[THEN conjunct2, THEN conjunct2, THEN conjunct1] R1[THEN conjunct2, THEN conjunct2, THEN conjunct2]
  have rec: "add_stored_edges state keys ks (d1, a1) = (d', a')" using Cons.prems(1) s1 by simp
  have dk: "distinct ks" and kn: "k \<notin> set ks" using Cons.prems(2) by simp_all
  note R2 = Cons.IH[OF rec dk]
  note dj = R2[THEN conjunct1] and cj = R2[THEN conjunct2, THEN conjunct1]
    and dom = R2[THEN conjunct2, THEN conjunct2, THEN conjunct1] R2[THEN conjunct2, THEN conjunct2, THEN conjunct2]
  have "\<forall>j. at0 d' j = at0 d j
        + (if j \<in> set (k # ks) then int (length (filter (\<lambda>x. x \<in> set keys) (SDependencies (state_at state j)))) else 0)"
  proof
    fix j
    show "at0 d' j = at0 d j
        + (if j \<in> set (k # ks) then int (length (filter (\<lambda>x. x \<in> set keys) (SDependencies (state_at state j)))) else 0)"
      using dj[rule_format, of j] d1[rule_format, of j] kn by (cases "j = k") simp_all
  qed
  moreover have "\<forall>u j. count_list (at_nil a' u) j = count_list (at_nil a u) j
        + (if j \<in> set (k # ks) \<and> u \<in> set keys then count_list (SDependencies (state_at state j)) u else 0)"
  proof (intro allI)
    fix u j
    have "count_list (at_nil a1 u) j = count_list (at_nil a u) j
        + (if j = k \<and> u \<in> set keys then count_list (SDependencies (state_at state k)) u else 0)"
      using a1[rule_format, of u] by (simp add: count_list_replicate)
    then show "count_list (at_nil a' u) j = count_list (at_nil a u) j
        + (if j \<in> set (k # ks) \<and> u \<in> set keys then count_list (SDependencies (state_at state j)) u else 0)"
      using cj[rule_format, of u j] kn by (cases "j = k") simp_all
  qed
  moreover have "fst ` set d \<subseteq> fst ` set d'"
    using dom1(1) dom(1) by (rule subset_trans)
  moreover have "fst ` set d' \<subseteq> fst ` set d \<union> set (k # ks)"
  proof -
    have "\<And>A B C D :: string set. A \<subseteq> B \<union> C \<Longrightarrow> B \<subseteq> insert k D \<Longrightarrow> A \<subseteq> D \<union> insert k C"
      by blast
    from this[OF dom(2) dom1(2)] show ?thesis by simp
  qed
  ultimately show ?case by blast
qed

lemma sum_count_list:
  "finite K \<Longrightarrow> (\<Sum>u\<in>K. count_list ds u) = length (filter (\<lambda>x. x \<in> K) ds)"
proof (induction ds)
  case Nil then show ?case by simp
next
  case (Cons x ds)
  have "(\<Sum>u\<in>K. count_list (x # ds) u) = (\<Sum>u\<in>K. (if u = x then 1 else 0) + count_list ds u)"
    by (intro sum.cong) auto
  also have "\<dots> = (\<Sum>u\<in>K. if u = x then 1 else 0) + (\<Sum>u\<in>K. count_list ds u)"
    by (simp add: sum.distrib)
  also have "(\<Sum>u\<in>K. if u = x then 1 else 0) = (if x \<in> K then 1 else (0::nat))"
    using Cons.prems by simp
  finally show ?case using Cons by simp
qed

lemma range_map_fst:
  "map fst (range_map env m) = filter (\<lambda>k. map_of m k \<noteq> None) (range_order env (remdups (map fst m)))"
proof -
  have "\<And>ks. map fst (List.map_filter (\<lambda>k. map_option (Pair k) (map_of m k)) ks)
      = filter (\<lambda>k. map_of m k \<noteq> None) ks"
  proof -
    fix ks show "map fst (List.map_filter (\<lambda>k. map_option (Pair k) (map_of m k)) ks)
      = filter (\<lambda>k. map_of m k \<noteq> None) ks"
      by (induction ks) (auto simp: map_filter_simps split: option.splits)
  qed
  then show ?thesis by (simp add: range_map_def)
qed

lemma fair_range_map:
  assumes "fair env"
  shows "distinct (map fst (range_map env m))" and "set (map fst (range_map env m)) = fst ` set m"
proof -
  let ?ks = "range_order env (remdups (map fst m))"
  have d: "distinct ?ks" and s: "set ?ks = fst ` set m"
    using assms unfolding fair_def by (simp_all add: distinct_remdups)
  have "\<forall>k\<in>set ?ks. map_of m k \<noteq> None"
    using s by (metis map_of_eq_None_iff)
  then have "filter (\<lambda>k. map_of m k \<noteq> None) ?ks = ?ks" by simp
  then have eq: "map fst (range_map env m) = ?ks" by (simp add: range_map_fst)
  show "distinct (map fst (range_map env m))" using d eq by simp
  show "set (map fst (range_map env m)) = fst ` set m" using s eq by simp
qed

lemma stored_graph:
  assumes g: "add_stored_edges state keys keys (init_graph keys ([], [])) = (d, adj)"
    and dk: "distinct keys" and f: "fair env"
  shows "keys_inv (set keys) adj (filter (\<lambda>k. at0 d k = 0) (map fst (range_map env d))) d []"
    and "\<And>u j. j \<in> set (at_nil adj u) \<longleftrightarrow> (u, j) \<in> stored_edges state (set keys)"
proof -
  define K where "K = set keys"
  define deps where "deps = (\<lambda>j. SDependencies (state_at state j))"
  obtain d0 a0 where i: "init_graph keys ([], []) = (d0, a0)" by (cases "init_graph keys ([], [])")
  note I = init_graph_result[OF i]
  have d0: "\<forall>j. at0 d0 j = 0" using I[THEN conjunct1] by (simp add: at0_def)
  have a0: "\<forall>u. at_nil a0 u = []" using I[THEN conjunct2, THEN conjunct1] by (simp add: at_nil_def)
  have dom0: "fst ` set d0 = K" using I[THEN conjunct2, THEN conjunct2] by (simp add: K_def)
  have g': "add_stored_edges state keys keys (d0, a0) = (d, adj)" using g i by simp
  note R = add_stored_edges_result[OF g' dk]
  have deg: "\<forall>j\<in>K. at0 d j = int (length (filter (\<lambda>x. x \<in> K) (deps j)))"
    using R[THEN conjunct1] d0 by (simp add: K_def deps_def)
  have cnt: "\<forall>u j. count_list (at_nil adj u) j = (if j \<in> K \<and> u \<in> K then count_list (deps j) u else 0)"
    using R[THEN conjunct2, THEN conjunct1] a0 by (simp add: K_def deps_def)
  have dom: "fst ` set d = K"
    using R[THEN conjunct2, THEN conjunct2, THEN conjunct1] R[THEN conjunct2, THEN conjunct2, THEN conjunct2]
      dom0 by (auto simp: K_def)
  have edge: "\<And>u j. j \<in> set (at_nil adj u) \<longleftrightarrow> (u \<in> K \<and> j \<in> K \<and> u \<in> set (deps j))"
  proof -
    fix u j
    have "j \<in> set (at_nil adj u) \<longleftrightarrow> count_list (at_nil adj u) j \<noteq> 0" by (simp add: count_list_0_iff)
    also have "\<dots> \<longleftrightarrow> (u \<in> K \<and> j \<in> K \<and> u \<in> set (deps j))"
    proof (cases "j \<in> K \<and> u \<in> K")
      case True
      then have "count_list (at_nil adj u) j = count_list (deps j) u" using cnt by simp
      then show ?thesis using True count_list_0_iff[of "deps j" u] by (simp only:) blast
    next
      case False
      then have "count_list (at_nil adj u) j = 0" using cnt by auto
      then show ?thesis using False by (simp only:) blast
    qed
    finally show "j \<in> set (at_nil adj u) \<longleftrightarrow> (u \<in> K \<and> j \<in> K \<and> u \<in> set (deps j))" .
  qed
  show "\<And>u j. j \<in> set (at_nil adj u) \<longleftrightarrow> (u, j) \<in> stored_edges state (set keys)"
    using edge by (simp add: stored_edges_def K_def deps_def)
  have fin: "finite K" by (simp add: K_def)
  have rng: "\<forall>u. \<forall>v\<in>set (at_nil adj u). v \<in> K" using edge by blast
  let ?q = "filter (\<lambda>k. at0 d k = 0) (map fst (range_map env d))"
  have dq: "distinct ?q" using fair_range_map(1)[OF f] by (intro distinct_filter)
  have sq: "set ?q = {k \<in> K. at0 d k = 0}" using fair_range_map(2)[OF f, of d] dom by auto
  have deg': "\<forall>j\<in>K. at0 d j = int (\<Sum>w\<in>K - set []. count_list (at_nil adj w) j)"
  proof
    fix j assume j: "j \<in> K"
    have "(\<Sum>w\<in>K. count_list (at_nil adj w) j) = (\<Sum>w\<in>K. count_list (deps j) w)"
      using cnt j by (intro sum.cong) auto
    also have "\<dots> = length (filter (\<lambda>x. x \<in> K) (deps j))" using fin by (rule sum_count_list)
    finally show "at0 d j = int (\<Sum>w\<in>K - set []. count_list (at_nil adj w) j)" using deg j by simp
  qed
  have "keys_inv K adj ?q d []"
    unfolding keys_inv_def using fin rng dq sq deg' by auto
  then show "keys_inv (set keys) adj ?q d []" by (simp add: K_def)
qed

lemma deleteOrderFromState_inv:
  assumes dk: "distinct keys" and f: "fair env"
  shows "\<exists>d adj. keys_inv (set keys) adj [] d (deleteOrderFromState env state keys)
    \<and> (\<forall>u j. j \<in> set (at_nil adj u) \<longleftrightarrow> (u, j) \<in> stored_edges state (set keys))"
proof -
  obtain d adj where g: "add_stored_edges state keys keys (init_graph keys ([], [])) = (d, adj)"
    by (cases "add_stored_edges state keys keys (init_graph keys ([], []))")
  from drain_keys_inv[OF stored_graph(1)[OF g dk f]] obtain d' where
    "keys_inv (set keys) adj [] d' (drain_keys adj (filter (\<lambda>k. at0 d k = 0) (map fst (range_map env d))) d [])"
    by blast
  moreover have "deleteOrderFromState env state keys
      = drain_keys adj (filter (\<lambda>k. at0 d k = 0) (map fst (range_map env d))) d []"
    using g by (simp add: deleteOrderFromState_def)
  moreover have "\<forall>u j. j \<in> set (at_nil adj u) \<longleftrightarrow> (u, j) \<in> stored_edges state (set keys)"
    using stored_graph(2)[OF g dk f] by blast
  ultimately show ?thesis by auto
qed

lemma deleteOrderFromState_correct:
  assumes dk: "distinct keys" and f: "fair env"
  shows "distinct (deleteOrderFromState env state keys)"
    and "set (deleteOrderFromState env state keys) \<subseteq> set keys"
    and "acyclic (stored_edges state (set keys)) \<Longrightarrow> set (deleteOrderFromState env state keys) = set keys"
proof -
  define ord where "ord = deleteOrderFromState env state keys"
  define K where "K = set keys"
  from deleteOrderFromState_inv[OF dk f, of state] obtain d adj where inv: "keys_inv K adj [] d ord"
    and edge: "\<And>u j. j \<in> set (at_nil adj u) \<longleftrightarrow> (u, j) \<in> stored_edges state K"
    unfolding ord_def K_def by blast
  from inv have fin: "finite K" and dist: "distinct ord" and sub: "\<forall>x\<in>set ord. x \<in> K"
    and deg: "\<forall>j\<in>K. at0 d j = int (\<Sum>w\<in>K - set ord. count_list (at_nil adj w) j)"
    and zero: "\<forall>j\<in>K. j \<in> set ord \<longleftrightarrow> at0 d j = 0"
    unfolding keys_inv_def append_Nil2 by blast+
  show "distinct (deleteOrderFromState env state keys)" using dist by (simp add: ord_def)
  show "set (deleteOrderFromState env state keys) \<subseteq> set keys" using sub by (auto simp: ord_def K_def)
  assume ac: "acyclic (stored_edges state (set keys))"
  have "set ord = K"
  proof (rule ccontr)
    assume ne: "set ord \<noteq> K"
    define U where "U = K - set ord"
    from ne sub obtain x where x: "x \<in> U" unfolding U_def by blast
    have "stored_edges state K \<subseteq> K \<times> K" by (auto simp: stored_edges_def)
    then have "finite (stored_edges state K)" using fin by (meson finite_SigmaI finite_subset)
    then have "wf (stored_edges state K)" using ac unfolding K_def by (rule finite_acyclic_wf)
    from wfE_min[OF this x] obtain z where z: "z \<in> U"
      and min: "\<And>y. (y, z) \<in> stored_edges state K \<Longrightarrow> y \<notin> U"
      by blast
    have zn: "z \<in> K" and "z \<notin> set ord" using z by (simp_all add: U_def)
    then have "at0 d z \<noteq> 0" using zero by blast
    with deg[rule_format, OF zn] have "(\<Sum>w\<in>U. count_list (at_nil adj w) z) \<noteq> 0"
      unfolding U_def by (metis of_nat_0)
    then obtain w where w: "w \<in> U" "count_list (at_nil adj w) z \<noteq> 0"
      by (meson sum.neutral)
    then have "z \<in> set (at_nil adj w)" by (simp add: count_list_0_iff)
    then have "(w, z) \<in> stored_edges state K" using edge by simp
    then show False using min w(1) by blast
  qed
  then show "set (deleteOrderFromState env state keys) = set keys" by (simp add: ord_def K_def)
qed

lemma deleteOrderFromState_omitted:
  assumes dk: "distinct keys" and f: "fair env"
  shows "\<forall>j\<in>set keys - set (deleteOrderFromState env state keys).
           \<exists>w\<in>set keys - set (deleteOrderFromState env state keys).
             w \<in> set (SDependencies (state_at state j))"
proof
  define ord where "ord = deleteOrderFromState env state keys"
  define K where "K = set keys"
  fix j assume "j \<in> set keys - set (deleteOrderFromState env state keys)"
  then have jK: "j \<in> K" and jo: "j \<notin> set ord" by (simp_all add: K_def ord_def)
  from deleteOrderFromState_inv[OF dk f, of state] obtain d adj where inv: "keys_inv K adj [] d ord"
    and edge: "\<And>u j. j \<in> set (at_nil adj u) \<longleftrightarrow> (u, j) \<in> stored_edges state K"
    unfolding ord_def K_def by blast
  from inv have deg: "\<forall>j\<in>K. at0 d j = int (\<Sum>w\<in>K - set ord. count_list (at_nil adj w) j)"
    and zero: "\<forall>j\<in>K. j \<in> set ord \<longleftrightarrow> at0 d j = 0"
    unfolding keys_inv_def append_Nil2 by blast+
  have "at0 d j \<noteq> 0" using zero jK jo by blast
  with deg[rule_format, OF jK] have "(\<Sum>w\<in>K - set ord. count_list (at_nil adj w) j) \<noteq> 0"
    by (metis of_nat_0)
  then obtain w where w: "w \<in> K - set ord" "count_list (at_nil adj w) j \<noteq> 0"
    by (meson sum.neutral)
  then have "j \<in> set (at_nil adj w)" by (simp add: count_list_0_iff)
  then have "(w, j) \<in> stored_edges state K" using edge by simp
  then have "w \<in> set (SDependencies (state_at state j))" by (simp add: stored_edges_def)
  then show "\<exists>w\<in>set keys - set (deleteOrderFromState env state keys).
             w \<in> set (SDependencies (state_at state j))"
    using w(1) unfolding K_def ord_def by blast
qed

lemma FindByNsPath_Some:
  assumes "FindByNsPath env st ns path = Some (k, v)"
  shows "map_of st k = Some v \<and> entry_pair v = (normalizeNamespace ns, normalizePath path)"
proof -
  let ?P = "\<lambda>kv. normalizeNamespace (SNamespace (snd kv)) = normalizeNamespace ns
      \<and> normalizePath (SPath (snd kv)) = normalizePath path"
  from assms have f: "find ?P (range_map env st) = Some (k, v)"
    by (simp add: FindByNsPath_def Let_def)
  then have "?P (k, v)" and "(k, v) \<in> set (range_map env st)"
    by (auto simp: find_Some_iff dest: sym)
  then show ?thesis using range_map_keys by (simp add: entry_pair_def)
qed

lemma create_step_same: "create_step r m m"
  by (simp add: create_step_def)

lemma create_step_update:
  "SNamespace e = NamespaceOrDefault r \<Longrightarrow> SPath e = Path r
    \<Longrightarrow> create_step r (map_of st) (map_of (AList.update (Key r) e st))"
  unfolding create_step_def by (intro disjI2 disjI1 exI[of _ e]) (simp add: update_conv' entry_pair_def resource_pair_def)

lemma create_step_migrate:
  assumes "map_of st (Key r) = None" and "map_of st oldKey = Some prev"
    and "entry_pair prev = resource_pair r"
    and "SNamespace e = NamespaceOrDefault r" and "SPath e = Path r"
  shows "create_step r (map_of st) (map_of (AList.delete oldKey (AList.update (Key r) e st)))"
proof -
  have "oldKey \<noteq> Key r" using assms(1,2) by auto
  moreover have "entry_pair e = resource_pair r" using assms(4,5) by (simp add: entry_pair_def resource_pair_def)
  moreover have "map_of (AList.delete oldKey (AList.update (Key r) e st)) = ((map_of st)(Key r \<mapsto> e))(oldKey := None)"
    by (simp add: update_conv' delete_conv')
  ultimately show ?thesis unfolding create_step_def using assms(2,3) by blast
qed

lemma apply_resource_step:
  assumes "apply_resource env a t r st tr = (out, st', tr')"
  shows "create_step r (map_of st) (map_of st')"
    and "out = Proceed \<Longrightarrow> map_of st' (Key r) \<noteq> None"
    and "\<not> IgnoreFailures r \<Longrightarrow> out = Proceed \<or> (\<exists>e. out = Abort e)"
proof -
  have F: "\<And>k v. FindByNsPath env st (NamespaceOrDefault r) (Path r) = Some (k, v)
      \<Longrightarrow> map_of st k = Some v \<and> entry_pair v = resource_pair r"
    using FindByNsPath_Some by (simp add: resource_pair_def)
  show "create_step r (map_of st) (map_of st')"
    using assms unfolding apply_resource_def Let_def
    by (auto split: sum.splits option.splits if_splits prod.splits http_result.splits
        intro!: create_step_same create_step_update create_step_migrate dest!: F)
  have G: "\<And>k v. FindByNsPath env st (NamespaceOrDefault r) (Path r) = Some (k, v)
      \<Longrightarrow> map_of st (Key r) = None \<Longrightarrow> k \<noteq> Key r"
    using F by auto
  show "out = Proceed \<Longrightarrow> map_of st' (Key r) \<noteq> None"
    using assms G unfolding apply_resource_def Let_def failure_def
    by (auto simp: update_conv' delete_conv'
        split: sum.splits option.splits if_splits prod.splits http_result.splits)
  show "\<not> IgnoreFailures r \<Longrightarrow> out = Proceed \<or> (\<exists>e. out = Abort e)"
    using assms unfolding apply_resource_def Let_def failure_def
    by (auto split: sum.splits option.splits if_splits prod.splits http_result.splits)
qed

lemma paired_iff:
  "paired rs state \<longleftrightarrow>
     (\<forall>k e. k \<in> Key ` set rs \<and> map_of state k = Some e
        \<longrightarrow> (\<exists>r\<in>set rs. Key r = k \<and> resource_pair r = entry_pair e))"
  unfolding paired_def list_all_iff list_ex_iff
  by (auto split: option.splits)

lemma create_step_batch:
  assumes st: "create_step r m m'" and r: "r \<in> set rs" and inj: "inj_on resource_pair (set rs)"
    and P: "\<forall>k e. k \<in> Key ` set rs \<and> m k = Some e \<longrightarrow> (\<exists>r\<in>set rs. Key r = k \<and> resource_pair r = entry_pair e)"
  shows "\<forall>k e. k \<in> Key ` set rs \<and> m' k = Some e \<longrightarrow> (\<exists>r\<in>set rs. Key r = k \<and> resource_pair r = entry_pair e)"
    and "\<forall>k\<in>Key ` set rs. m k \<noteq> None \<longrightarrow> m' k \<noteq> None"
proof -
  from st consider (same) "m' = m"
    | (upd) e where "entry_pair e = resource_pair r" "m' = m(Key r \<mapsto> e)"
    | (mig) oldKey prev e where "oldKey \<noteq> Key r" "m oldKey = Some prev" "entry_pair prev = resource_pair r"
        "entry_pair e = resource_pair r" "m' = (m(Key r \<mapsto> e))(oldKey := None)"
    unfolding create_step_def by blast
  then have "(\<forall>k e. k \<in> Key ` set rs \<and> m' k = Some e \<longrightarrow> (\<exists>r\<in>set rs. Key r = k \<and> resource_pair r = entry_pair e))
     \<and> (\<forall>k\<in>Key ` set rs. m k \<noteq> None \<longrightarrow> m' k \<noteq> None)"
  proof cases
    case same
    then show ?thesis using P by simp
  next
    case upd
    have "\<And>k e'. k \<in> Key ` set rs \<Longrightarrow> m' k = Some e' \<Longrightarrow> \<exists>r\<in>set rs. Key r = k \<and> resource_pair r = entry_pair e'"
    proof -
      fix k e' assume k: "k \<in> Key ` set rs" and e': "m' k = Some e'"
      show "\<exists>r\<in>set rs. Key r = k \<and> resource_pair r = entry_pair e'"
      proof (cases "k = Key r")
        case True
        then have "e' = e" using e' upd(2) by simp
        then show ?thesis using True r upd(1) by auto
      next
        case False
        then have "m k = Some e'" using e' upd(2) by simp
        then show ?thesis using P k by blast
      qed
    qed
    moreover have "\<forall>k\<in>Key ` set rs. m k \<noteq> None \<longrightarrow> m' k \<noteq> None" using upd(2) by simp
    ultimately show ?thesis by blast
  next
    case mig
    have old: "oldKey \<notin> Key ` set rs"
    proof
      assume "oldKey \<in> Key ` set rs"
      with P mig(2) obtain r' where r': "r' \<in> set rs" "Key r' = oldKey" "resource_pair r' = entry_pair prev"
        by blast
      then have "resource_pair r' = resource_pair r" using mig(3) by simp
      then have "r' = r" using inj r r'(1) by (auto dest: inj_onD)
      then show False using r'(2) mig(1) by simp
    qed
    have "\<And>k e'. k \<in> Key ` set rs \<Longrightarrow> m' k = Some e' \<Longrightarrow> \<exists>r\<in>set rs. Key r = k \<and> resource_pair r = entry_pair e'"
    proof -
      fix k e' assume k: "k \<in> Key ` set rs" and e': "m' k = Some e'"
      have ko: "k \<noteq> oldKey" using k old by blast
      show "\<exists>r\<in>set rs. Key r = k \<and> resource_pair r = entry_pair e'"
      proof (cases "k = Key r")
        case True
        then have "e' = e" using e' mig(5) ko by simp
        then show ?thesis using True r mig(4) by auto
      next
        case False
        then have "m k = Some e'" using e' mig(5) ko by simp
        then show ?thesis using P k by blast
      qed
    qed
    moreover have "\<forall>k\<in>Key ` set rs. m k \<noteq> None \<longrightarrow> m' k \<noteq> None"
    proof (intro ballI impI)
      fix k assume "k \<in> Key ` set rs" and mk: "m k \<noteq> None"
      then have "k \<noteq> oldKey" using old by blast
      then show "m' k \<noteq> None" using mig(5) mk by simp
    qed
    ultimately show ?thesis by blast
  qed
  then show "\<forall>k e. k \<in> Key ` set rs \<and> m' k = Some e \<longrightarrow> (\<exists>r\<in>set rs. Key r = k \<and> resource_pair r = entry_pair e)"
    and "\<forall>k\<in>Key ` set rs. m k \<noteq> None \<longrightarrow> m' k \<noteq> None" by blast+
qed

lemma create_step_stale:
  assumes st: "create_step r m m'" and k: "k \<notin> Key ` set rs" and r: "r \<in> set rs"
  shows "m' k = m k \<or> (m' k = None \<and> (\<exists>e. m k = Some e \<and> resource_pair r = entry_pair e))"
proof -
  have kr: "k \<noteq> Key r" using k r by blast
  from st consider (same) "m' = m"
    | (upd) e where "m' = m(Key r \<mapsto> e)"
    | (mig) oldKey prev e where "m oldKey = Some prev" "entry_pair prev = resource_pair r"
        "m' = (m(Key r \<mapsto> e))(oldKey := None)"
    unfolding create_step_def by blast
  then show ?thesis
  proof cases
    case same
    then show ?thesis by simp
  next
    case upd
    then show ?thesis using kr by simp
  next
    case mig
    show ?thesis
    proof (cases "k = oldKey")
      case True
      then show ?thesis using mig by simp
    next
      case False
      then show ?thesis using mig(3) kr by simp
    qed
  qed
qed

lemma create_pass_batch:
  assumes "create_pass env a t ps st tr = (None, mid, trm)"
    and "set ps \<subseteq> set rs" and "inj_on resource_pair (set rs)"
    and "\<forall>k e. k \<in> Key ` set rs \<and> map_of st k = Some e \<longrightarrow> (\<exists>r\<in>set rs. Key r = k \<and> resource_pair r = entry_pair e)"
  shows "(\<forall>k\<in>Key ` set rs. map_of st k \<noteq> None \<longrightarrow> map_of mid k \<noteq> None)
     \<and> (\<forall>r\<in>set ps. \<not> IgnoreFailures r \<longrightarrow> map_of mid (Key r) \<noteq> None)"
  using assms
proof (induction ps arbitrary: st tr)
  case Nil
  then show ?case by simp
next
  case (Cons r ps)
  obtain out st1 tr1 where ar: "apply_resource env a t r st tr = (out, st1, tr1)"
    by (cases "apply_resource env a t r st tr")
  have r: "r \<in> set rs" and sub: "set ps \<subseteq> set rs" using Cons.prems(2) by auto
  from Cons.prems(1) ar have na: "\<And>e. out \<noteq> Abort e"
    and rest: "create_pass env a t ps st1 tr1 = (None, mid, trm)"
    by (cases out; simp)+
  note cs = create_step_batch[OF apply_resource_step(1)[OF ar] r Cons.prems(3) Cons.prems(4)]
  note IH = Cons.IH[OF rest sub Cons.prems(3) cs(1)]
  have keep: "\<forall>k\<in>Key ` set rs. map_of st k \<noteq> None \<longrightarrow> map_of mid k \<noteq> None"
    using cs(2) IH[THEN conjunct1] by blast
  have "\<not> IgnoreFailures r \<longrightarrow> map_of mid (Key r) \<noteq> None"
  proof
    assume "\<not> IgnoreFailures r"
    then have "out = Proceed" using apply_resource_step(3)[OF ar] na by blast
    then have "map_of st1 (Key r) \<noteq> None" using apply_resource_step(2)[OF ar] by blast
    then show "map_of mid (Key r) \<noteq> None" using IH[THEN conjunct1] r by blast
  qed
  then show ?case using keep IH[THEN conjunct2] by simp
qed

lemma create_pass_stale:
  assumes "create_pass env a t ps st tr = (res, mid, trm)" and "set ps \<subseteq> set rs"
    and "k \<notin> Key ` set rs"
  shows "map_of mid k = map_of st k
     \<or> (map_of mid k = None \<and> (\<exists>e. map_of st k = Some e \<and> (\<exists>r\<in>set rs. resource_pair r = entry_pair e)))"
  using assms
proof (induction ps arbitrary: st tr)
  case Nil
  then show ?case by simp
next
  case (Cons r ps)
  obtain out st1 tr1 where ar: "apply_resource env a t r st tr = (out, st1, tr1)"
    by (cases "apply_resource env a t r st tr")
  have r: "r \<in> set rs" and sub: "set ps \<subseteq> set rs" using Cons.prems(2) by auto
  note cs = create_step_stale[OF apply_resource_step(1)[OF ar] Cons.prems(3) r]
  show ?case
  proof (cases "\<exists>e. out = Abort e")
    case True
    then have "mid = st1" using Cons.prems(1) ar by auto
    then show ?thesis using cs r by auto
  next
    case False
    then have "create_pass env a t ps st1 tr1 = (res, mid, trm)"
      using Cons.prems(1) ar by (cases out) auto
    from Cons.IH[OF this sub Cons.prems(3)] cs r show ?thesis by (metis option.distinct(1))
  qed
qed

lemma state_at_cong: "map_of st k = map_of st0 k \<Longrightarrow> state_at st k = state_at st0 k"
  by (simp add: state_at_def)

lemma delete_request_cong:
  "map_of st k = map_of st0 k \<Longrightarrow> delete_request a t st k = delete_request a t st0 k"
  by (simp add: delete_request_def state_at_def)

lemma requests_snoc: "requests (tr @ [Request rq]) = requests tr @ [rq]"
  by (simp add: requests_def)

lemma delete_key_step:
  assumes "delete_key env a t k st tr = (out, st', tr')"
  shows "\<forall>k'. k' \<noteq> k \<longrightarrow> map_of st' k' = map_of st k'"
    and "set (requests tr) \<subseteq> set (requests tr')"
    and "(\<forall>e. out \<noteq> Abort e) \<longrightarrow>
           delete_request a t st k \<in> set (requests tr')
           \<or> (SIgnoreFailures (state_at st k) \<and> NewRequest_fails env ''DELETE'' (ReqURL (delete_request a t st k)))"
proof -
  have R: "\<And>s x. requests (snd (save env s (tr @ [Request x]))) = requests tr @ [x]"
    by (simp add: requests_save requests_snoc)
  have R': "\<And>s x b tr'. save env s (tr @ [Request x]) = (b, tr') \<Longrightarrow> requests tr' = requests tr @ [x]"
    using R by (metis snd_conv)
  show "\<forall>k'. k' \<noteq> k \<longrightarrow> map_of st' k' = map_of st k'"
    using assms unfolding delete_key_def Let_def
    by (auto simp: delete_conv' split: if_splits http_result.splits prod.splits)
  show "set (requests tr) \<subseteq> set (requests tr')"
    using assms unfolding delete_key_def Let_def
    by (auto simp: requests_snoc split: if_splits http_result.splits prod.splits dest!: R')
  show "(\<forall>e. out \<noteq> Abort e) \<longrightarrow>
           delete_request a t st k \<in> set (requests tr')
           \<or> (SIgnoreFailures (state_at st k) \<and> NewRequest_fails env ''DELETE'' (ReqURL (delete_request a t st k)))"
    using assms unfolding delete_key_def Let_def delete_request_def failure_def
    by (auto simp: requests_snoc split: if_splits http_result.splits prod.splits dest!: R')
qed

lemma delete_pass_requests:
  assumes "delete_pass env a t ks st tr = (None, st', tr')" and "distinct ks"
  shows "(\<forall>k. k \<notin> set ks \<longrightarrow> map_of st' k = map_of st k)
     \<and> set (requests tr) \<subseteq> set (requests tr')
     \<and> (\<forall>k\<in>set ks. delete_request a t st k \<in> set (requests tr')
           \<or> (SIgnoreFailures (state_at st k) \<and> NewRequest_fails env ''DELETE'' (ReqURL (delete_request a t st k))))"
  using assms
proof (induction ks arbitrary: st tr)
  case Nil
  then show ?case by simp
next
  case (Cons k ks)
  obtain out st1 tr1 where dk: "delete_key env a t k st tr = (out, st1, tr1)"
    by (cases "delete_key env a t k st tr")
  from Cons.prems(1) dk have na: "\<forall>e. out \<noteq> Abort e"
    and rest: "delete_pass env a t ks st1 tr1 = (None, st', tr')"
    by (cases out; simp)+
  have dist: "distinct ks" and kn: "k \<notin> set ks" using Cons.prems(2) by simp_all
  note S = delete_key_step[OF dk]
  note IH = Cons.IH[OF rest dist]
  have A: "\<forall>k'. k' \<notin> set (k # ks) \<longrightarrow> map_of st' k' = map_of st k'"
    using S(1) IH[THEN conjunct1] by simp
  have B: "set (requests tr) \<subseteq> set (requests tr')"
    using S(2) IH[THEN conjunct2, THEN conjunct1] by blast
  have C: "\<And>k'. k' \<in> set (k # ks) \<Longrightarrow> delete_request a t st k' \<in> set (requests tr')
           \<or> (SIgnoreFailures (state_at st k') \<and> NewRequest_fails env ''DELETE'' (ReqURL (delete_request a t st k')))"
  proof -
    fix k' assume "k' \<in> set (k # ks)"
    then consider "k' = k" | "k' \<in> set ks" "k' \<noteq> k" using kn by auto
    then show "delete_request a t st k' \<in> set (requests tr')
           \<or> (SIgnoreFailures (state_at st k') \<and> NewRequest_fails env ''DELETE'' (ReqURL (delete_request a t st k')))"
    proof cases
      case 1
      then show ?thesis using S(3) na IH[THEN conjunct2, THEN conjunct1] by blast
    next
      case 2
      then have eq: "map_of st1 k' = map_of st k'" using S(1) by simp
      from IH[THEN conjunct2, THEN conjunct2] 2(1)
      have "delete_request a t st1 k' \<in> set (requests tr')
           \<or> (SIgnoreFailures (state_at st1 k') \<and> NewRequest_fails env ''DELETE'' (ReqURL (delete_request a t st1 k')))"
        by blast
      then show ?thesis using delete_request_cong[OF eq] state_at_cong[OF eq] by simp
    qed
  qed
  show ?case using A B C by blast
qed

lemma stale_set:
  assumes "fair env"
  shows "distinct (stale env rs st)"
    and "set (stale env rs st) = {k \<in> fst ` set st. k \<notin> Key ` set rs}"
  using fair_range_map[OF assms, of st] by (auto simp: stale_def)

text \<open>The runs of \<^verbatim>\<open>Apply\<close> that return nil.\<close>

lemma Apply_None:
  assumes run: "Apply env rs vaultAddr token state = (None, state', tr)"
  obtains order trm where "topologicalOrder rs = Inr order"
    and "create_pass env (TrimSuffixSlash vaultAddr) token (map (\<lambda>idx. rs ! idx) order) state []
           = (None, create_state env rs vaultAddr token state, trm)"
    and "delete_pass env (TrimSuffixSlash vaultAddr) token
           (deleteOrderFromState env (create_state env rs vaultAddr token state)
              (stale env rs (create_state env rs vaultAddr token state)))
           (create_state env rs vaultAddr token state) trm = (None, state', tr)"
proof -
  define a where "a = TrimSuffixSlash vaultAddr"
  have a: "a \<noteq> []"
  proof
    assume "a = []"
    then have "Apply env rs vaultAddr token state = (Some AddressRequired, state, [])"
      by (simp add: Apply_def a_def)
    then show False using run by simp
  qed
  have t: "token \<noteq> []"
  proof
    assume "token = []"
    then have "Apply env rs vaultAddr token state = (Some TokenRequired, state, [])"
      using a by (simp add: Apply_def a_def)
    then show False using run by simp
  qed
  obtain order where o: "topologicalOrder rs = Inr order"
  proof (cases "topologicalOrder rs")
    case (Inl err)
    then have "Apply env rs vaultAddr token state = (Some err, state, [])"
      using a t by (simp add: Apply_def a_def)
    then show ?thesis using run by simp
  next
    case (Inr order)
    then show ?thesis using that by simp
  qed
  obtain res mid trm where c: "create_pass env a token (map (\<lambda>idx. rs ! idx) order) state [] = (res, mid, trm)"
    by (cases "create_pass env a token (map (\<lambda>idx. rs ! idx) order) state []")
  have m: "create_state env rs vaultAddr token state = mid"
    using o c by (simp add: create_state_def a_def)
  have res: "res = None"
  proof (cases res)
    case None
    then show ?thesis .
  next
    case (Some err)
    then have "Apply env rs vaultAddr token state = (Some err, mid, trm)"
      using a t o c by (simp add: Apply_def a_def)
    then show ?thesis using run by simp
  qed
  have "Apply env rs vaultAddr token state
      = delete_pass env a token (deleteOrderFromState env mid (stale env rs mid)) mid trm"
    using a t o c res by (simp add: Apply_def a_def stale_def)
  then show ?thesis using that[OF o] c res m run by (simp add: a_def)
qed

text \<open>
  Claim C4, as amended.  Let \<^verbatim>\<open>Apply\<close> return nil, with a map iteration that visits each
  key once.  If no two resources of the batch share a normalized namespace and path and
  every entry that the prior state holds under an effective name of the batch carries
  the namespace and path of a batch resource of that name, then the resulting state has
  an entry under the effective name of every resource of the batch that does not set
  \<^verbatim>\<open>ignore_failures\<close>.  Every key of the prior state that is not an effective name of
  the batch either is in \<^verbatim>\<open>toDelete\<close> with its entry unchanged by the create pass, or
  was removed by a key migration to a batch resource with its normalized namespace and
  path; \<^verbatim>\<open>toDelete\<close> holds prior entries only.  The delete order lists keys of
  \<^verbatim>\<open>toDelete\<close>, each once, and all of them when the dependencies stored among these keys
  have no cycle; a key of \<^verbatim>\<open>toDelete\<close> that the delete order omits lists another omitted
  key among its stored dependencies.  For every key of the delete order the DELETE request for its stored
  namespace and path has been sent, unless the request could not be built and the entry
  sets \<^verbatim>\<open>ignore_failures\<close>.
\<close>

theorem Apply_delete_completeness:
  assumes run: "Apply env rs vaultAddr token state = (None, state', tr)" and f: "fair env"
  shows "(distinct (map resource_pair rs) \<and> paired rs state
            \<longrightarrow> (\<forall>r\<in>set rs. \<not> IgnoreFailures r \<longrightarrow> map_of state' (Key r) \<noteq> None))
     \<and> (let mid = create_state env rs vaultAddr token state;
             toDelete = stale env rs mid;
             deleteOrder = deleteOrderFromState env mid toDelete
         in (\<forall>k e. map_of state k = Some e \<and> k \<notin> Key ` set rs \<longrightarrow>
                (map_of mid k = Some e \<and> k \<in> set toDelete)
                \<or> (map_of mid k = None \<and> (\<exists>r\<in>set rs. resource_pair r = entry_pair e)))
            \<and> (\<forall>k\<in>set toDelete. map_of mid k = map_of state k)
            \<and> distinct deleteOrder \<and> set deleteOrder \<subseteq> set toDelete
            \<and> (acyclic (stored_edges mid (set toDelete)) \<longrightarrow> set deleteOrder = set toDelete)
            \<and> (\<forall>j\<in>set toDelete - set deleteOrder. \<exists>w\<in>set toDelete - set deleteOrder.
                  w \<in> set (SDependencies (state_at mid j)))
            \<and> (\<forall>key\<in>set deleteOrder.
                  delete_request (TrimSuffixSlash vaultAddr) token mid key \<in> set (requests tr)
                  \<or> (SIgnoreFailures (state_at mid key)
                      \<and> NewRequest_fails env ''DELETE''
                           (ReqURL (delete_request (TrimSuffixSlash vaultAddr) token mid key)))))"
proof -
  define mid where "mid = create_state env rs vaultAddr token state"
  define toDelete where "toDelete = stale env rs mid"
  define deleteOrder where "deleteOrder = deleteOrderFromState env mid toDelete"
  define a where "a = TrimSuffixSlash vaultAddr"
  from Apply_None[OF run] obtain order trm where o: "topologicalOrder rs = Inr order"
    and c: "create_pass env a token (map (\<lambda>idx. rs ! idx) order) state [] = (None, mid, trm)"
    and d: "delete_pass env a token deleteOrder mid trm = (None, state', tr)"
    unfolding mid_def toDelete_def deleteOrder_def a_def by blast
  have ps: "set (map (\<lambda>idx. rs ! idx) order) = set rs"
  proof -
    have "set order = {0..<length rs}"
      using topologicalOrder_in_range[OF o] by (simp add: atLeast0LessThan)
    then have "set (map (\<lambda>idx. rs ! idx) order) = (!) rs ` {0..<length rs}" by simp
    also have "\<dots> = set rs" using nth_image[of "length rs" rs] by simp
    finally show ?thesis .
  qed
  have td: "distinct toDelete" and ts: "set toDelete = {k \<in> fst ` set mid. k \<notin> Key ` set rs}"
    unfolding toDelete_def by (rule stale_set[OF f])+
  have dd: "distinct deleteOrder" and ds: "set deleteOrder \<subseteq> set toDelete"
    and dc: "acyclic (stored_edges mid (set toDelete)) \<Longrightarrow> set deleteOrder = set toDelete"
    unfolding deleteOrder_def by (rule deleteOrderFromState_correct[OF td f])+
  note D = delete_pass_requests[OF d dd]
  have P1: "distinct (map resource_pair rs) \<and> paired rs state
            \<longrightarrow> (\<forall>r\<in>set rs. \<not> IgnoreFailures r \<longrightarrow> map_of state' (Key r) \<noteq> None)"
  proof (intro impI ballI)
    fix r assume h: "distinct (map resource_pair rs) \<and> paired rs state" and r: "r \<in> set rs"
      and ni: "\<not> IgnoreFailures r"
    have inj: "inj_on resource_pair (set rs)" using h by (simp add: distinct_map)
    have pr: "\<forall>k e. k \<in> Key ` set rs \<and> map_of state k = Some e
        \<longrightarrow> (\<exists>r\<in>set rs. Key r = k \<and> resource_pair r = entry_pair e)"
      using h[THEN conjunct2] unfolding paired_iff .
    have sub: "set (map (\<lambda>idx. rs ! idx) order) \<subseteq> set rs" using ps by simp
    from create_pass_batch[OF c sub inj pr] r ni ps have "map_of mid (Key r) \<noteq> None" by blast
    moreover have "Key r \<notin> set deleteOrder" using ds ts r by blast
    ultimately show "map_of state' (Key r) \<noteq> None" using D[THEN conjunct1] by simp
  qed
  have sub: "set (map (\<lambda>idx. rs ! idx) order) \<subseteq> set rs" using ps by simp
  have st: "\<And>k. k \<notin> Key ` set rs \<Longrightarrow> map_of mid k = map_of state k
     \<or> (map_of mid k = None \<and> (\<exists>e. map_of state k = Some e \<and> (\<exists>r\<in>set rs. resource_pair r = entry_pair e)))"
    by (rule create_pass_stale[OF c sub])
  have dom: "\<And>k. k \<in> fst ` set mid \<longleftrightarrow> map_of mid k \<noteq> None"
    by (simp add: map_of_eq_None_iff)
  have P2: "\<forall>k e. map_of state k = Some e \<and> k \<notin> Key ` set rs \<longrightarrow>
                (map_of mid k = Some e \<and> k \<in> set toDelete)
                \<or> (map_of mid k = None \<and> (\<exists>r\<in>set rs. resource_pair r = entry_pair e))"
  proof (intro allI impI)
    fix k e assume h: "map_of state k = Some e \<and> k \<notin> Key ` set rs"
    from st[of k] h consider "map_of mid k = Some e"
      | "map_of mid k = None" "\<exists>r\<in>set rs. resource_pair r = entry_pair e"
      by auto
    then show "(map_of mid k = Some e \<and> k \<in> set toDelete)
                \<or> (map_of mid k = None \<and> (\<exists>r\<in>set rs. resource_pair r = entry_pair e))"
    proof cases
      case 1
      then have "k \<in> set toDelete" using ts dom[of k] h by simp
      then show ?thesis using 1 by simp
    next
      case 2
      then show ?thesis by simp
    qed
  qed
  have P3: "\<forall>k\<in>set toDelete. map_of mid k = map_of state k"
  proof
    fix k assume "k \<in> set toDelete"
    then have a: "k \<notin> Key ` set rs" and b: "map_of mid k \<noteq> None" using ts dom[of k] by simp_all
    from st[OF a] b show "map_of mid k = map_of state k" by auto
  qed
  have P4: "acyclic (stored_edges mid (set toDelete)) \<longrightarrow> set deleteOrder = set toDelete"
    using dc by blast
  have P4b: "\<forall>j\<in>set toDelete - set deleteOrder. \<exists>w\<in>set toDelete - set deleteOrder.
      w \<in> set (SDependencies (state_at mid j))"
    unfolding deleteOrder_def by (rule deleteOrderFromState_omitted[OF td f])
  have P5: "\<forall>key\<in>set deleteOrder.
                  delete_request a token mid key \<in> set (requests tr)
                  \<or> (SIgnoreFailures (state_at mid key)
                      \<and> NewRequest_fails env ''DELETE'' (ReqURL (delete_request a token mid key)))"
    using D[THEN conjunct2, THEN conjunct2] .
  show ?thesis
    unfolding Let_def mid_def[symmetric] toDelete_def[symmetric] deleteOrder_def[symmetric] a_def[symmetric]
    using P1 P2 P3 dd ds P4 P4b P5 by (intro conjI) assumption+
qed

lemma fair_vault: "fair vault"
  by (simp add: fair_def vault_def)

theorem Apply_delete_completeness_witness:
  "fair vault
   \<and> fst (Apply vault [doc_a, doc_b] ''http://v/'' ''tok'' old_state) = None
   \<and> distinct (map resource_pair [doc_a, doc_b]) \<and> paired [doc_a, doc_b] old_state
   \<and> map_of (fst (snd (Apply vault [doc_a, doc_b] ''http://v/'' ''tok'' old_state))) (Key doc_a) \<noteq> None
   \<and> map_of (fst (snd (Apply vault [doc_a, doc_b] ''http://v/'' ''tok'' old_state))) (Key doc_b) \<noteq> None
   \<and> stale vault [doc_a, doc_b] (create_state vault [doc_a, doc_b] ''http://v/'' ''tok'' old_state) = [''old'']
   \<and> deleteOrderFromState vault (create_state vault [doc_a, doc_b] ''http://v/'' ''tok'' old_state) [''old'']
        = [''old'']
   \<and> delete_request ''http://v'' ''tok'' old_state ''old''
        \<in> set (requests (snd (snd (Apply vault [doc_a, doc_b] ''http://v/'' ''tok'' old_state))))"
proof -
  define S where "S = fst (snd (Apply vault [doc_a, doc_b] ''http://v/'' ''tok'' old_state))"
  define T where "T = snd (snd (Apply vault [doc_a, doc_b] ''http://v/'' ''tok'' old_state))"
  define mid where "mid = create_state vault [doc_a, doc_b] ''http://v/'' ''tok'' old_state"
  have n: "fst (Apply vault [doc_a, doc_b] ''http://v/'' ''tok'' old_state) = None" by code_simp
  then have run: "Apply vault [doc_a, doc_b] ''http://v/'' ''tok'' old_state = (None, S, T)"
    by (simp add: S_def T_def prod_eq_iff)
  have d: "distinct (map resource_pair [doc_a, doc_b])" by code_simp
  have p: "paired [doc_a, doc_b] old_state" by code_simp
  have st: "stale vault [doc_a, doc_b] mid = [''old'']" unfolding mid_def by code_simp
  have dl: "deleteOrderFromState vault mid [''old''] = [''old'']" unfolding mid_def by code_simp
  have nf: "\<And>m u. \<not> NewRequest_fails vault m u" by (simp add: vault_def)
  have ts: "TrimSuffixSlash ''http://v/'' = ''http://v''" by (simp add: TrimSuffixSlash_def)
  note T1 = Apply_delete_completeness[OF run fair_vault, THEN conjunct1]
  note T2 = Apply_delete_completeness[OF run fair_vault, THEN conjunct2, unfolded Let_def,
      folded mid_def, unfolded st dl ts]
  have ia: "\<not> IgnoreFailures doc_a" by (simp add: doc_a_def)
  have ib: "\<not> IgnoreFailures doc_b" by (simp add: doc_b_def)
  have a: "map_of S (Key doc_a) \<noteq> None" using T1 d p ia by simp
  have b: "map_of S (Key doc_b) \<noteq> None" using T1 d p ib by simp
  have "map_of mid ''old'' = map_of old_state ''old''"
    using T2[THEN conjunct2, THEN conjunct1] by simp
  then have eq: "delete_request ''http://v'' ''tok'' mid ''old'' = delete_request ''http://v'' ''tok'' old_state ''old''"
    by (rule delete_request_cong)
  have "delete_request ''http://v'' ''tok'' mid ''old'' \<in> set (requests T)"
    using T2[THEN conjunct2, THEN conjunct2, THEN conjunct2, THEN conjunct2, THEN conjunct2,
        THEN conjunct2] nf by simp
  then have r: "delete_request ''http://v'' ''tok'' old_state ''old'' \<in> set (requests T)"
    unfolding eq .
  show ?thesis
    using fair_vault n d p a[unfolded S_def] b[unfolded S_def] st[unfolded mid_def] dl[unfolded mid_def]
      r[unfolded T_def]
    by (intro conjI) assumption+
qed

text \<open>
  Claim C4 as stated fails in both halves.  A document that sets \<^verbatim>\<open>ignore_failures\<close>
  and whose POST is answered with 503 leaves no entry, and \<^verbatim>\<open>Apply\<close> returns nil.  A
  document \<open>w\<close> that takes over the entry of \<open>x\<close> by key migration, after \<open>x\<close> was passed
  over for its matching digest, leaves the state without the key \<open>x\<close> of the batch,
  although no document sets \<^verbatim>\<open>ignore_failures\<close>.  Two prior keys outside the batch that
  list each other as dependencies never enter the delete order: \<^verbatim>\<open>Apply\<close> returns nil
  without a request and the keys stay in the state.
\<close>

theorem Apply_nil_without_batch_key_or_delete:
  "Key optional_doc = ''opt''
   \<and> fst (Apply sealed [optional_doc] ''http://v/'' ''tok'' []) = None
   \<and> fst (snd (Apply sealed [optional_doc] ''http://v/'' ''tok'' [])) = []
   \<and> map (\<lambda>rq. (ReqMethod rq, ReqURL rq))
        (requests (snd (snd (Apply sealed [optional_doc] ''http://v/'' ''tok'' []))))
       = [(''POST'', ''http://v/v1/kv1/opt'')]
   \<and> map Key [moved_x, new_w] = [''x'', ''w'']
   \<and> IgnoreFailures moved_x = False \<and> IgnoreFailures new_w = False
   \<and> fst (Apply vault [moved_x, new_w] ''http://v/'' ''tok'' moved_state) = None
   \<and> map fst (fst (snd (Apply vault [moved_x, new_w] ''http://v/'' ''tok'' moved_state))) = [''w'']
   \<and> map fst knot_state = [''p'', ''q'']
   \<and> Apply vault [] ''http://v/'' ''tok'' knot_state = (None, knot_state, [])"
proof -
  have "Key optional_doc = ''opt''" by code_simp
  moreover have "fst (Apply sealed [optional_doc] ''http://v/'' ''tok'' []) = None" by code_simp
  moreover have "fst (snd (Apply sealed [optional_doc] ''http://v/'' ''tok'' [])) = []" by code_simp
  moreover have "map (\<lambda>rq. (ReqMethod rq, ReqURL rq))
        (requests (snd (snd (Apply sealed [optional_doc] ''http://v/'' ''tok'' []))))
       = [(''POST'', ''http://v/v1/kv1/opt'')]" by code_simp
  moreover have "map Key [moved_x, new_w] = [''x'', ''w'']" by code_simp
  moreover have "IgnoreFailures moved_x = False" by code_simp
  moreover have "IgnoreFailures new_w = False" by code_simp
  moreover have "fst (Apply vault [moved_x, new_w] ''http://v/'' ''tok'' moved_state) = None" by code_simp
  moreover have "map fst (fst (snd (Apply vault [moved_x, new_w] ''http://v/'' ''tok'' moved_state))) = [''w'']"
    by code_simp
  moreover have "map fst knot_state = [''p'', ''q'']" by code_simp
  moreover have "Apply vault [] ''http://v/'' ''tok'' knot_state = (None, knot_state, [])" by code_simp
  ultimately show ?thesis by (intro conjI) assumption+
qed

subsection \<open>A second run of the same batch\<close>























end
